theory Spec2Isabelle
  imports Main
begin

section \<open>Values exchanged with the host workspace\<close>

text \<open>
  The program is a React component (\<open>App\<close>) that drives the host's table API
  (\<open>bitable.base\<close>), keeps one structural snapshot, and persists it in
  \<open>localStorage\<close> and in the host's key-value bridge.

  Strings are byte strings: a JavaScript string is represented by its UTF-8 encoding, so
  the non-ASCII literals of the source are spelled out byte by byte.  JSON payloads are
  trees; numbers are the integers (the field-type codes and every count the program
  handles are integers; fractional numbers are outside the model).
\<close>

datatype json =
    JNull
  | JBool bool
  | JNumber int
  | JString string
  | JArray "json list"
  | JObject "(string \<times> json) list"

text \<open>
  \<open>IFieldMeta\<close> and \<open>ITableMeta\<close> of the SDK, with the members the program reads.
  A name is optional because the source guards every read of it
  (\<open>meta.name ?? ...\<close>, \<open>field.name || field.id\<close>).
\<close>

record IFieldMeta =
  fieldId :: string
  fieldName :: "string option"
  fieldType :: int
  fieldProperty :: "json option"
  isPrimary :: bool

record ITableMeta =
  metaId :: string
  metaName :: "string option"

text \<open>\<open>type TableBundle = { meta: ITableMeta; fields: IFieldMeta[] }\<close>\<close>

record TableBundle =
  meta :: ITableMeta
  fieldMetas :: "IFieldMeta list"

text \<open>\<open>SnapshotField\<close>, \<open>SnapshotTable\<close> and \<open>Snapshot\<close> of the source.\<close>

record SnapshotField =
  sfId :: string
  sfName :: string
  sfType :: int
  sfProperty :: "json option"

record SnapshotTable =
  tableId :: string
  tableName :: string
  tableFields :: "SnapshotField list"

record Snapshot =
  label :: string
  timestamp :: string
  tables :: "SnapshotTable list"

section \<open>JavaScript objects used as sets\<close>

text \<open>
  \<open>Record<string, boolean>\<close> is a list of entries in \<open>Object.entries\<close> order.
  \<open>obj[k]\<close> is truthy exactly when the entry of \<open>k\<close> holds \<open>true\<close>.
\<close>

type_synonym flags = "(string \<times> bool) list"

definition isChecked :: "flags \<Rightarrow> string \<Rightarrow> bool" where
  "isChecked obj k = (map_of obj k = Some True)"

text \<open>
  \<open>Object.entries(obj).filter(([, checked]) => checked).map(([key]) => key)\<close>
\<close>

definition checkedKeys :: "flags \<Rightarrow> string list" where
  "checkedKeys obj = map fst (filter snd obj)"

text \<open>\<open>obj[k] = v\<close>: an existing key keeps its place, a new key goes last.\<close>

fun objSet :: "'k \<Rightarrow> 'v \<Rightarrow> ('k \<times> 'v) list \<Rightarrow> ('k \<times> 'v) list" where
  "objSet k v [] = [(k, v)]"
| "objSet k v ((k', v') # rest) =
     (if k' = k then (k, v) # rest else (k', v') # objSet k v rest)"

text \<open>\<open>a || b\<close> on an optional string: the empty string is falsy too.\<close>

definition orElse :: "string option \<Rightarrow> string \<Rightarrow> string" where
  "orElse a b = (case a of None \<Rightarrow> b | Some s \<Rightarrow> if s = [] then b else s)"

text \<open>\<open>a ?? b\<close> on an optional string: only null and undefined are replaced.\<close>

definition nullish :: "string option \<Rightarrow> string \<Rightarrow> string" where
  "nullish a b = (case a of None \<Rightarrow> b | Some s \<Rightarrow> s)"

section \<open>The host workspace\<close>

text \<open>
  The calls the program issues on \<open>bitable.base\<close> and on a table handle.  The SDK is
  not part of the repository; the host below follows the contract the program relies on:
  a call either raises or answers, deleting removes, and (as the source's own messages
  say) the host keeps at least one table and never gives up an index field.
\<close>

datatype call =
    GetTableMetaList
  | GetTableById string
  | GetFieldMetaList string
  | DeleteTable string
  | DeleteField string string
  | AddTable string
  | SetFieldName string string string
  | AddField string int string "json option"

datatype hostError = HostError | NotFound | NotPermitted

datatype deletionError =
    TableDeleteFailed string
  | FieldDeleteFailed string
  | TableLoadFailed string
  | LastTableFieldsFailed

datatype rollbackNote =
    SystemFieldSkipped string int
  | ComplexFieldUnsupported string int
  | FieldRebuildFailed string string
  | PrimaryRenameFailed string
  | TableRebuildFailed string

text \<open>
  The texts of the toasts, by what they say:
  \<^item> \<open>RetainLastTable name\<close>: the base must keep one table, table \<open>name\<close> is kept and only
    its fields (the index column apart) are deleted (line 614);
  \<^item> \<open>IndexExcludedNothingLeft name\<close>: the index column of \<open>name\<close> was left out and nothing
    else is to delete (line 661);
  \<^item> \<open>OnlyIndexColumn name\<close>: table \<open>name\<close> holds its index column only (line 698);
  \<^item> \<open>DeletionPartlyFailed errors\<close> and \<open>DeletionDone\<close> (lines 707, 709);
  \<^item> the others are the snapshot, load and rollback messages.
\<close>

datatype message =
    RetainLastTable string
  | IndexExcludedNothingLeft string
  | OnlyIndexColumn string
  | DeletionPartlyFailed "deletionError list"
  | DeletionDone
  | SnapshotDone
  | SnapshotFailed
  | SnapshotTakenOver
  | LoadTablesFailed
  | NothingSelected
  | NoSnapshot
  | RollbackPartlyDone "rollbackNote list"
  | RollbackDone
  | NoVisibleFields
  | VisibleFieldsSelected

datatype toast = Info message | Success message | Warning message | Error message

text \<open>The value \<open>bridge.getData\<close> answers: \<open>Snapshot | null | undefined\<close>.\<close>

datatype bridgeValue = Undefined | Null | Stored Snapshot

text \<open>
  \<open>bitable.bridge\<close>: which of the optional methods it has, what it holds under
  \<open>BRIDGE_SNAPSHOT_KEY\<close>, and whether a call raises.  A call of \<open>getData\<close> can fail in
  two ways that an \<open>async\<close> caller tells apart: the call itself throws
  (\<open>getDataThrows\<close>), or it returns a promise that rejects (\<open>getDataRaises\<close>).
\<close>

record Bridge =
  hasGetData :: bool
  hasSetData :: bool
  getDataThrows :: bool
  getDataRaises :: bool
  setDataRaises :: bool
  bridgeData :: bridgeValue

text \<open>
  \<open>window.localStorage\<close>, reduced to the one key \<open>LOCAL_STORAGE_KEY\<close>: the item, and
  whether the storage raises on access (a blocked or full storage).
\<close>

record LocalStorage =
  item :: "string option"
  storageRaises :: bool

text \<open>
  The world: the host's tables with the log of calls issued on them, the two stores, and
  the component's React state.
\<close>

record world =
  hostTables :: "TableBundle list"
  faulty :: "call \<Rightarrow> bool"
  calls :: "call list"
  fresh :: nat
  defaultPrimaryName :: "string option"
  bridge :: "Bridge option"
  window :: "LocalStorage option"
  tablesState :: "TableBundle list"
  selectedTables :: flags
  selectedFields :: "(string \<times> flags) list"
  snapshot :: "Snapshot option"
  snapshotBusy :: bool
  deleteBusy :: bool
  rollbackBusy :: bool
  loading :: bool
  loadError :: bool
  toasts :: "toast list"

definition logCall :: "call \<Rightarrow> world \<Rightarrow> world" where
  "logCall c w = w\<lparr>calls := calls w @ [c]\<rparr>"

definition showToast :: "toast \<Rightarrow> world \<Rightarrow> world" where
  "showToast t w = w\<lparr>toasts := toasts w @ [t]\<rparr>"

definition findTable :: "string \<Rightarrow> TableBundle list \<Rightarrow> TableBundle option" where
  "findTable tid ts = find (\<lambda>t. metaId (meta t) = tid) ts"

text \<open>\<open>bitable.base.getTableMetaList()\<close>\<close>

definition getTableMetaList :: "world \<Rightarrow> (hostError + ITableMeta list) \<times> world" where
  "getTableMetaList w =
     (if faulty w GetTableMetaList then (Inl HostError, logCall GetTableMetaList w)
      else (Inr (map meta (hostTables w)), logCall GetTableMetaList w))"

text \<open>\<open>bitable.base.getTableById(id)\<close>: the handle of a table is its id.\<close>

definition getTableById :: "string \<Rightarrow> world \<Rightarrow> (hostError + string) \<times> world" where
  "getTableById tid w =
     (if faulty w (GetTableById tid) then (Inl HostError, logCall (GetTableById tid) w)
      else case findTable tid (hostTables w) of
             None \<Rightarrow> (Inl NotFound, logCall (GetTableById tid) w)
           | Some t \<Rightarrow> (Inr tid, logCall (GetTableById tid) w))"

text \<open>\<open>table.getFieldMetaList()\<close>\<close>

definition getFieldMetaList :: "string \<Rightarrow> world \<Rightarrow> (hostError + IFieldMeta list) \<times> world" where
  "getFieldMetaList tid w =
     (if faulty w (GetFieldMetaList tid) then (Inl HostError, logCall (GetFieldMetaList tid) w)
      else case findTable tid (hostTables w) of
             None \<Rightarrow> (Inl NotFound, logCall (GetFieldMetaList tid) w)
           | Some t \<Rightarrow> (Inr (fieldMetas t), logCall (GetFieldMetaList tid) w))"

text \<open>\<open>bitable.base.deleteTable(id)\<close>: the host refuses to delete its only table.\<close>

definition deleteTable :: "string \<Rightarrow> world \<Rightarrow> (hostError + unit) \<times> world" where
  "deleteTable tid w =
     (if faulty w (DeleteTable tid) then (Inl HostError, logCall (DeleteTable tid) w)
      else case findTable tid (hostTables w) of
             None \<Rightarrow> (Inl NotFound, logCall (DeleteTable tid) w)
           | Some t \<Rightarrow>
               if length (hostTables w) \<le> 1 then (Inl NotPermitted, logCall (DeleteTable tid) w)
               else (Inr (),
                     logCall (DeleteTable tid)
                       (w\<lparr>hostTables := filter (\<lambda>t. metaId (meta t) \<noteq> tid) (hostTables w)\<rparr>)))"

text \<open>\<open>table.deleteField(fieldId)\<close>: the host refuses to delete an index field.\<close>

definition dropField :: "string \<Rightarrow> string \<Rightarrow> TableBundle \<Rightarrow> TableBundle" where
  "dropField tid fid t =
     (if metaId (meta t) = tid then t\<lparr>fieldMetas := filter (\<lambda>f. fieldId f \<noteq> fid) (fieldMetas t)\<rparr> else t)"

definition deleteField :: "string \<Rightarrow> string \<Rightarrow> world \<Rightarrow> (hostError + unit) \<times> world" where
  "deleteField tid fid w =
     (if faulty w (DeleteField tid fid) then (Inl HostError, logCall (DeleteField tid fid) w)
      else case findTable tid (hostTables w) of
             None \<Rightarrow> (Inl NotFound, logCall (DeleteField tid fid) w)
           | Some t \<Rightarrow>
               (case find (\<lambda>f. fieldId f = fid) (fieldMetas t) of
                  None \<Rightarrow> (Inl NotFound, logCall (DeleteField tid fid) w)
                | Some f \<Rightarrow>
                    if isPrimary f then (Inl NotPermitted, logCall (DeleteField tid fid) w)
                    else (Inr (),
                          logCall (DeleteField tid fid)
                            (w\<lparr>hostTables := map (dropField tid fid) (hostTables w)\<rparr>))))"

section \<open>JSON text\<close>

text \<open>
  \<open>JSON.stringify\<close> (without indentation) and \<open>JSON.parse\<close>, as ECMAScript defines
  them, on the trees of the model.  The engine is not part of the repository.
\<close>

abbreviation QUOTE :: char where "QUOTE \<equiv> CHR 0x22"
abbreviation BACKSLASH :: char where "BACKSLASH \<equiv> CHR 0x5C"

definition digitChar :: "nat \<Rightarrow> char" where
  "digitChar d = char_of (48 + d)"

text \<open>The decimal digits of a natural number, as \<open>Number.prototype.toString\<close> prints them.\<close>

fun decimal :: "nat \<Rightarrow> string" where
  "decimal n = (if n < 10 then [digitChar n] else decimal (n div 10) @ [digitChar (n mod 10)])"

declare decimal.simps [simp del]

definition numberToString :: "int \<Rightarrow> string" where
  "numberToString i = (if i < 0 then CHR ''-'' # decimal (nat (- i)) else decimal (nat i))"

definition hexChar :: "nat \<Rightarrow> char" where
  "hexChar d = (if d < 10 then char_of (48 + d) else char_of (87 + d))"

text \<open>\<open>QuoteJSONString\<close>: the two-character escapes, \<open>\u00XX\<close> for the other control characters.\<close>

definition escapeChar :: "char \<Rightarrow> string" where
  "escapeChar c =
     (if c = QUOTE then [BACKSLASH, QUOTE]
      else if c = BACKSLASH then [BACKSLASH, BACKSLASH]
      else if c = CHR 0x08 then [BACKSLASH, CHR ''b'']
      else if c = CHR 0x0C then [BACKSLASH, CHR ''f'']
      else if c = CHR 0x0A then [BACKSLASH, CHR ''n'']
      else if c = CHR 0x0D then [BACKSLASH, CHR ''r'']
      else if c = CHR 0x09 then [BACKSLASH, CHR ''t'']
      else if (of_char c :: nat) < 32 then
        [BACKSLASH, CHR ''u'', CHR ''0'', CHR ''0'',
         hexChar (of_char c div 16), hexChar (of_char c mod 16)]
      else [c])"

definition quoteJSONString :: "string \<Rightarrow> string" where
  "quoteJSONString s = QUOTE # concat (map escapeChar s) @ [QUOTE]"

fun commaSep :: "string list \<Rightarrow> string" where
  "commaSep [] = []"
| "commaSep [x] = x"
| "commaSep (x # y # rest) = x @ CHR '','' # commaSep (y # rest)"

definition memberText :: "string \<times> string \<Rightarrow> string" where
  "memberText m = quoteJSONString (fst m) @ CHR '':'' # snd m"

primrec JSON_stringify :: "json \<Rightarrow> string" where
  "JSON_stringify JNull = ''null''"
| "JSON_stringify (JBool b) = (if b then ''true'' else ''false'')"
| "JSON_stringify (JNumber i) = numberToString i"
| "JSON_stringify (JString s) = quoteJSONString s"
| "JSON_stringify (JArray xs) = CHR ''['' # commaSep (map JSON_stringify xs) @ '']''"
| "JSON_stringify (JObject kvs) =
     CHR ''{'' # commaSep (map memberText (map (map_prod id JSON_stringify) kvs)) @ ''}''"

subsection \<open>Reading\<close>

definition isWhitespace :: "char \<Rightarrow> bool" where
  "isWhitespace c = (c = CHR '' '' \<or> c = CHR 0x09 \<or> c = CHR 0x0A \<or> c = CHR 0x0D)"

definition skipWs :: "string \<Rightarrow> string" where
  "skipWs s = dropWhile isWhitespace s"

definition isDigit :: "char \<Rightarrow> bool" where
  "isDigit c = (48 \<le> (of_char c :: nat) \<and> (of_char c :: nat) \<le> 57)"

definition digitValue :: "char \<Rightarrow> nat" where
  "digitValue c = of_char c - 48"

definition digitsValue :: "string \<Rightarrow> nat" where
  "digitsValue ds = foldl (\<lambda>a c. 10 * a + digitValue c) 0 ds"

definition hexValue :: "char \<Rightarrow> nat option" where
  "hexValue c =
     (let n = (of_char c :: nat) in
      if 48 \<le> n \<and> n \<le> 57 then Some (n - 48)
      else if 97 \<le> n \<and> n \<le> 102 then Some (n - 87)
      else if 65 \<le> n \<and> n \<le> 70 then Some (n - 55)
      else None)"

text \<open>
  The UTF-8 bytes of the code unit a \<open>\uXXXX\<close> escape denotes.  A surrogate has none on
  its own; text that spells a character outside the basic plane by escapes is outside
  the model and is rejected.
\<close>

definition utf8 :: "nat \<Rightarrow> string option" where
  "utf8 n =
     (if n < 128 then Some [char_of n]
      else if n < 2048 then Some [char_of (192 + n div 64), char_of (128 + n mod 64)]
      else if 55296 \<le> n \<and> n < 57344 then None
      else Some [char_of (224 + n div 4096), char_of (128 + (n div 64) mod 64),
                 char_of (128 + n mod 64)])"

definition unicodeEscape :: "char \<Rightarrow> char \<Rightarrow> char \<Rightarrow> char \<Rightarrow> string option" where
  "unicodeEscape a b c d =
     (case (hexValue a, hexValue b, hexValue c, hexValue d) of
        (Some x, Some y, Some z, Some u) \<Rightarrow> utf8 (((x * 16 + y) * 16 + z) * 16 + u)
      | _ \<Rightarrow> None)"

definition simpleEscape :: "char \<Rightarrow> char option" where
  "simpleEscape e =
     (if e = QUOTE then Some QUOTE
      else if e = BACKSLASH then Some BACKSLASH
      else if e = CHR ''/'' then Some (CHR ''/'')
      else if e = CHR ''b'' then Some (CHR 0x08)
      else if e = CHR ''f'' then Some (CHR 0x0C)
      else if e = CHR ''n'' then Some (CHR 0x0A)
      else if e = CHR ''r'' then Some (CHR 0x0D)
      else if e = CHR ''t'' then Some (CHR 0x09)
      else None)"

definition consumed :: "string \<Rightarrow> (string \<times> string) option \<Rightarrow> (string \<times> string) option" where
  "consumed bytes r = map_option (\<lambda>p. (bytes @ fst p, snd p)) r"

text \<open>The characters of a string literal after its opening quote, and the text after it.\<close>

fun parseString :: "string \<Rightarrow> (string \<times> string) option" where
  "parseString [] = None"
| "parseString (c # r) =
     (if c = QUOTE then Some ([], r)
      else if c = BACKSLASH then
        (case r of
           [] \<Rightarrow> None
         | e # r1 \<Rightarrow>
             if e = CHR ''u'' then
               (case r1 of
                  a # b # c' # d # r2 \<Rightarrow>
                    (case unicodeEscape a b c' d of
                       None \<Rightarrow> None
                     | Some bytes \<Rightarrow> consumed bytes (parseString r2))
                | _ \<Rightarrow> None)
             else
               (case simpleEscape e of
                  None \<Rightarrow> None
                | Some ch \<Rightarrow> consumed [ch] (parseString r1)))
      else if (of_char c :: nat) < 32 then None
      else consumed [c] (parseString r))"

text \<open>
  A number: an optional sign and digits without a leading zero.  A fraction or an
  exponent is outside the model (numbers are integers) and is rejected.
\<close>

definition parseNumber :: "string \<Rightarrow> (int \<times> string) option" where
  "parseNumber s =
     (let negative = (s \<noteq> [] \<and> hd s = CHR ''-'');
          body = (if negative then tl s else s);
          digits = takeWhile isDigit body;
          rest = dropWhile isDigit body
      in if digits = [] then None
         else if length digits > 1 \<and> hd digits = CHR ''0'' then None
         else if rest \<noteq> [] \<and> (hd rest = CHR ''.'' \<or> hd rest = CHR ''e'' \<or> hd rest = CHR ''E'') then None
         else Some (if negative then - int (digitsValue digits) else int (digitsValue digits), rest))"

definition stripPrefix :: "string \<Rightarrow> string \<Rightarrow> string option" where
  "stripPrefix p s = (if take (length p) s = p then Some (drop (length p) s) else None)"

text \<open>
  An object is built member by member: a repeated key keeps its first place and takes
  the last value.
\<close>

definition objectOf :: "(string \<times> json) list \<Rightarrow> json" where
  "objectOf members = JObject (foldl (\<lambda>obj m. objSet (fst m) (snd m) obj) [] members)"

text \<open>
  The recursive descent, with the nesting bounded by the first argument; \<open>JSON_parse\<close>
  starts it with more than the text can need.
\<close>

fun parseValue :: "nat \<Rightarrow> string \<Rightarrow> (json \<times> string) option"
  and parseElements :: "nat \<Rightarrow> string \<Rightarrow> (json list \<times> string) option"
  and parseMembers :: "nat \<Rightarrow> string \<Rightarrow> ((string \<times> json) list \<times> string) option" where
  "parseValue 0 s = None"
| "parseValue (Suc n) s =
     (case skipWs s of
        [] \<Rightarrow> None
      | c # r \<Rightarrow>
          if c = CHR ''{'' then
            (case skipWs r of
               [] \<Rightarrow> None
             | c1 # r1 \<Rightarrow>
                 if c1 = CHR ''}'' then Some (JObject [], r1)
                 else map_option (\<lambda>p. (objectOf (fst p), snd p)) (parseMembers n r))
          else if c = CHR ''['' then
            (case skipWs r of
               [] \<Rightarrow> None
             | c1 # r1 \<Rightarrow>
                 if c1 = CHR '']'' then Some (JArray [], r1)
                 else map_option (\<lambda>p. (JArray (fst p), snd p)) (parseElements n r))
          else if c = QUOTE then map_option (\<lambda>p. (JString (fst p), snd p)) (parseString r)
          else if c = CHR ''t'' then map_option (\<lambda>r'. (JBool True, r')) (stripPrefix ''true'' (c # r))
          else if c = CHR ''f'' then map_option (\<lambda>r'. (JBool False, r')) (stripPrefix ''false'' (c # r))
          else if c = CHR ''n'' then map_option (\<lambda>r'. (JNull, r')) (stripPrefix ''null'' (c # r))
          else map_option (\<lambda>p. (JNumber (fst p), snd p)) (parseNumber (c # r)))"
| "parseElements 0 s = None"
| "parseElements (Suc n) s =
     (case parseValue n s of
        None \<Rightarrow> None
      | Some (v, r) \<Rightarrow>
          (case skipWs r of
             [] \<Rightarrow> None
           | c # r1 \<Rightarrow>
               if c = CHR '','' then map_option (\<lambda>p. (v # fst p, snd p)) (parseElements n r1)
               else if c = CHR '']'' then Some ([v], r1)
               else None))"
| "parseMembers 0 s = None"
| "parseMembers (Suc n) s =
     (case skipWs s of
        [] \<Rightarrow> None
      | q # r \<Rightarrow>
          if q \<noteq> QUOTE then None
          else
            (case parseString r of
               None \<Rightarrow> None
             | Some (k, r1) \<Rightarrow>
                 (case skipWs r1 of
                    [] \<Rightarrow> None
                  | c # r2 \<Rightarrow>
                      if c \<noteq> CHR '':'' then None
                      else
                        (case parseValue n r2 of
                           None \<Rightarrow> None
                         | Some (v, r3) \<Rightarrow>
                             (case skipWs r3 of
                                [] \<Rightarrow> None
                              | c' # r4 \<Rightarrow>
                                  if c' = CHR '','' then
                                    map_option (\<lambda>p. ((k, v) # fst p, snd p)) (parseMembers n r4)
                                  else if c' = CHR ''}'' then Some ([(k, v)], r4)
                                  else None)))))"

datatype syntaxError = SyntaxError

definition JSON_parse :: "string \<Rightarrow> syntaxError + json" where
  "JSON_parse s =
     (case parseValue (Suc (length s)) s of
        None \<Rightarrow> Inl SyntaxError
      | Some (v, r) \<Rightarrow> if skipWs r = [] then Inr v else Inl SyntaxError)"

text \<open>
  The trees the model is exact on: numbers within the safe integers (beyond them a
  JavaScript number rounds), and objects without a repeated key.
\<close>

primrec wfJson :: "json \<Rightarrow> bool" where
  "wfJson JNull = True"
| "wfJson (JBool b) = True"
| "wfJson (JNumber i) = (- 9007199254740991 \<le> i \<and> i \<le> 9007199254740991)"
| "wfJson (JString s) = True"
| "wfJson (JArray xs) = list_all (\<lambda>b. b) (map wfJson xs)"
| "wfJson (JObject kvs) =
     (distinct (map fst kvs) \<and> list_all (\<lambda>b. b) (map snd (map (map_prod id wfJson) kvs)))"

text \<open>The digits of a number give the number back.\<close>

lemma of_char_digitChar: "d < 10 \<Longrightarrow> (of_char (digitChar d) :: nat) = 48 + d"
  by (simp add: digitChar_def)

lemma isDigit_digitChar: "d < 10 \<Longrightarrow> isDigit (digitChar d)"
  by (simp add: isDigit_def of_char_digitChar)

lemma digitValue_digitChar: "d < 10 \<Longrightarrow> digitValue (digitChar d) = d"
  by (simp add: digitValue_def of_char_digitChar)

lemma decimal_digits: "\<forall>c \<in> set (decimal n). isDigit c"
proof (induction n rule: decimal.induct)
  case (1 n)
  show ?case
  proof (cases "n < 10")
    case True
    then show ?thesis by (simp add: decimal.simps [of n] isDigit_digitChar)
  next
    case False
    then show ?thesis using 1 by (simp add: decimal.simps [of n] isDigit_digitChar)
  qed
qed

lemma decimal_nonempty: "decimal n \<noteq> []"
  by (subst decimal.simps) simp

lemma digitsValue_snoc: "digitsValue (ds @ [c]) = 10 * digitsValue ds + digitValue c"
  by (simp add: digitsValue_def)

lemma digitsValue_decimal: "digitsValue (decimal n) = n"
proof (induction n rule: decimal.induct)
  case (1 n)
  show ?case
  proof (cases "n < 10")
    case True
    then show ?thesis by (simp add: decimal.simps [of n] digitsValue_def digitValue_digitChar)
  next
    case False
    then have "digitsValue (decimal n) = 10 * (n div 10) + n mod 10"
      using 1 by (simp add: decimal.simps [of n] digitsValue_snoc digitValue_digitChar)
    then show ?thesis by simp
  qed
qed

lemma digitChar_zero: "d < 10 \<Longrightarrow> (digitChar d = CHR ''0'') = (d = 0)"
proof -
  assume d: "d < 10"
  have "(digitChar d = CHR ''0'') = ((of_char (digitChar d) :: nat) = of_char (CHR ''0''))"
    by (simp only: of_char_eq_iff)
  then show ?thesis using d by (simp add: of_char_digitChar)
qed

lemma decimal_hd: "0 < n \<Longrightarrow> hd (decimal n) \<noteq> CHR ''0''"
proof (induction n rule: decimal.induct)
  case (1 n)
  show ?case
  proof (cases "n < 10")
    case True
    then show ?thesis using 1 by (simp add: decimal.simps [of n] digitChar_zero)
  next
    case False
    then have "0 < n div 10" by simp
    then show ?thesis using 1 False by (simp add: decimal.simps [of n] decimal_nonempty)
  qed
qed

lemma decimal_single: "length (decimal n) > 1 \<Longrightarrow> 0 < n"
  by (cases "n = 0") (simp_all add: decimal.simps [of 0])

section \<open>Reloading the table list\<close>

text \<open>
  The \<open>Promise.all\<close> over the table list (lines 326-335, and again in the snapshot
  capture): every table is opened and its fields are listed.  The reads are issued in
  list order here; the result is assembled in list order as in the source, and one read
  that raises rejects the whole.
\<close>

fun loadBundles :: "ITableMeta list \<Rightarrow> world \<Rightarrow> (hostError + TableBundle list) \<times> world" where
  "loadBundles [] w = (Inr [], w)"
| "loadBundles (m # ms) w =
     (case getTableById (metaId m) w of
        (Inl e, w1) \<Rightarrow> (Inl e, w1)
      | (Inr table, w1) \<Rightarrow>
          (case getFieldMetaList table w1 of
             (Inl e, w2) \<Rightarrow> (Inl e, w2)
           | (Inr fieldMetaList, w2) \<Rightarrow>
               (case loadBundles ms w2 of
                  (Inl e, w3) \<Rightarrow> (Inl e, w3)
                | (Inr bundles, w3) \<Rightarrow>
                    (Inr (\<lparr>meta = m, fieldMetas = fieldMetaList\<rparr> # bundles), w3))))"

text \<open>The two \<open>setSelected...((prev) => ...)\<close> updaters of \<open>refreshTables\<close>.\<close>

definition pruneSelectedTables :: "TableBundle list \<Rightarrow> flags \<Rightarrow> flags" where
  "pruneSelectedTables bundles prev =
     foldl (\<lambda>next bundle.
              if isChecked prev (metaId (meta bundle)) then objSet (metaId (meta bundle)) True next
              else next)
       [] bundles"

definition pruneFieldFlags :: "IFieldMeta list \<Rightarrow> flags \<Rightarrow> flags" where
  "pruneFieldFlags fs prevFields =
     foldl (\<lambda>filtered field.
              if isChecked prevFields (fieldId field) then objSet (fieldId field) True filtered
              else filtered)
       [] fs"

definition pruneSelectedFields ::
  "TableBundle list \<Rightarrow> (string \<times> flags) list \<Rightarrow> (string \<times> flags) list" where
  "pruneSelectedFields bundles prev =
     foldl (\<lambda>next bundle.
              case map_of prev (metaId (meta bundle)) of
                None \<Rightarrow> next
              | Some prevFields \<Rightarrow>
                  (let filtered = pruneFieldFlags (fieldMetas bundle) prevFields
                   in if length filtered > 0 then objSet (metaId (meta bundle)) filtered next
                      else next))
       [] bundles"

definition refreshFailed :: "world \<Rightarrow> world" where
  "refreshFailed w = (showToast (Error LoadTablesFailed) (w\<lparr>loadError := True\<rparr>))\<lparr>loading := False\<rparr>"

definition refreshTables :: "world \<Rightarrow> world" where
  "refreshTables w =
     (case getTableMetaList (w\<lparr>loading := True, loadError := False\<rparr>) of
        (Inl e, w1) \<Rightarrow> refreshFailed w1
      | (Inr metaList, w1) \<Rightarrow>
          (case loadBundles metaList w1 of
             (Inl e, w2) \<Rightarrow> refreshFailed w2
           | (Inr bundles, w2) \<Rightarrow>
               w2\<lparr>tablesState := bundles,
                  selectedTables := pruneSelectedTables bundles (selectedTables w2),
                  selectedFields := pruneSelectedFields bundles (selectedFields w2),
                  loading := False\<rparr>))"

section \<open>Selecting\<close>

text \<open>
  \<open>RenderBundle\<close>, and \<open>renderBundles\<close> (lines 476-519) in the filter state the
  component starts in and \<open>clearSelections\<close> restores: no query, every field type,
  structure order.  Then every table is displayed with all its fields.
\<close>

record RenderBundle =
  rbBundle :: TableBundle
  visibleFields :: "IFieldMeta list"
  tableMatches :: bool
  shouldDisplay :: bool

definition renderBundlesUnfiltered :: "TableBundle list \<Rightarrow> RenderBundle list" where
  "renderBundlesUnfiltered ts =
     filter shouldDisplay
       (map (\<lambda>b. \<lparr>rbBundle = b, visibleFields = fieldMetas b, tableMatches = True,
                   shouldDisplay = (True \<or> length (fieldMetas b) > 0)\<rparr>) ts)"

text \<open>\<open>toggleTable\<close> (lines 521-531)\<close>

definition toggleTable :: "string \<Rightarrow> world \<Rightarrow> world" where
  "toggleTable tid w =
     w\<lparr>selectedTables :=
         (if isChecked (selectedTables w) tid
          then filter (\<lambda>e. fst e \<noteq> tid) (selectedTables w)
          else objSet tid True (selectedTables w))\<rparr>"

text \<open>
  \<open>selectVisibleFields\<close> (lines 878-898): every visible field of every displayed table
  that is not selected as a whole.
\<close>

definition allFieldsChecked :: "IFieldMeta list \<Rightarrow> flags" where
  "allFieldsChecked fs = foldl (\<lambda>obj field. objSet (fieldId field) True obj) [] fs"

definition selectVisibleFields :: "RenderBundle list \<Rightarrow> world \<Rightarrow> world" where
  "selectVisibleFields renderBundles w =
     (if length renderBundles = 0 then showToast (Info NoVisibleFields) w
      else
        showToast (Success VisibleFieldsSelected)
          (w\<lparr>selectedFields :=
               foldl (\<lambda>next rb.
                        if isChecked (selectedTables w) (metaId (meta (rbBundle rb))) then next
                        else if length (visibleFields rb) = 0 then next
                        else objSet (metaId (meta (rbBundle rb)))
                               (allFieldsChecked (visibleFields rb)) next)
                 [] renderBundles\<rparr>))"

section \<open>Deletion\<close>

text \<open>\<open>'unknown table'\<close>, the three ideographs of line 611, in UTF-8.\<close>

definition unknownTableName :: string where
  "unknownTableName =
     [CHR 0xE6, CHR 0x9C, CHR 0xAA, CHR 0xE7, CHR 0x9F, CHR 0xA5, CHR 0xE8, CHR 0xA1, CHR 0xA8]"

text \<open>
  Lines 599-615 of \<open>performDeletion\<close>: the table ids to delete, and the table that is
  kept when the selection is as long as the table list.  \<open>lastTableId\<close> and
  \<open>lastTableName\<close> stay \<open>null\<close> (\<open>None\<close>) otherwise.
\<close>

record deletionPlan =
  lastTableId :: "string option"
  lastTableName :: "string option"
  tableIdsToDelete :: "string list"

definition planDeletion :: "ITableMeta list \<Rightarrow> flags \<Rightarrow> deletionPlan" where
  "planDeletion currentTableList selTables =
     (let currentTableIds = map metaId currentTableList;
          selectedIds = checkedKeys selTables;
          willDeleteAllTables = (length selectedIds \<ge> length currentTableIds)
      in if willDeleteAllTables \<and> length currentTableIds > 0 then
           \<lparr>lastTableId = Some (last currentTableIds),
            lastTableName = Some (orElse (metaName (last currentTableList)) unknownTableName),
            tableIdsToDelete = filter (\<lambda>i. i \<noteq> last currentTableIds) selectedIds\<rparr>
         else
           \<lparr>lastTableId = None, lastTableName = None, tableIdsToDelete = selectedIds\<rparr>)"

text \<open>A \<open>null\<close> name printed by a template literal reads \<open>null\<close>.\<close>

definition shownName :: "string option \<Rightarrow> string" where
  "shownName n = (case n of None \<Rightarrow> ''null'' | Some s \<Rightarrow> s)"

text \<open>Step 1 (lines 618-625): delete the tables, collecting the failures.\<close>

fun deleteTables ::
  "string list \<Rightarrow> deletionError list \<times> world \<Rightarrow> deletionError list \<times> world" where
  "deleteTables [] ew = ew"
| "deleteTables (tid # rest) (errors, w) =
     (case deleteTable tid w of
        (Inl e, w1) \<Rightarrow> deleteTables rest (errors @ [TableDeleteFailed tid], w1)
      | (Inr u, w1) \<Rightarrow> deleteTables rest (errors, w1))"

text \<open>The inner loop of step 2 (lines 666-673).\<close>

fun deleteFields ::
  "string \<Rightarrow> string list \<Rightarrow> deletionError list \<times> world \<Rightarrow> deletionError list \<times> world" where
  "deleteFields table [] ew = ew"
| "deleteFields table (fid # rest) (errors, w) =
     (case deleteField table fid w of
        (Inl e, w1) \<Rightarrow> deleteFields table rest (errors @ [FieldDeleteFailed fid], w1)
      | (Inr u, w1) \<Rightarrow> deleteFields table rest (errors, w1))"

text \<open>
  \<open>fieldMeta && fieldMeta.isPrimary !== true\<close> over
  \<open>new Map(fieldMetaList.map(f => [f.id, f]))\<close>: a later entry of the list replaces an
  earlier one with the same id.
\<close>

definition deletableIn :: "IFieldMeta list \<Rightarrow> string \<Rightarrow> bool" where
  "deletableIn fieldMetaList fid =
     (case map_of (rev (map (\<lambda>f. (fieldId f, f)) fieldMetaList)) fid of
        None \<Rightarrow> False
      | Some fieldMeta \<Rightarrow> \<not> isPrimary fieldMeta)"

text \<open>One round of the loop of step 2 (lines 628-678), for one entry of \<open>selectedFields\<close>.\<close>

definition deleteFieldsOfEntry ::
  "flags \<Rightarrow> deletionPlan \<Rightarrow> string \<times> flags \<Rightarrow> deletionError list \<times> world
     \<Rightarrow> deletionError list \<times> world" where
  "deleteFieldsOfEntry selTables plan entry ew =
     (let tid = fst entry; fieldMap = snd entry; errors = fst ew; w = snd ew in
      if isChecked selTables tid \<and> Some tid \<noteq> lastTableId plan then ew
      else if Some tid = lastTableId plan \<and> isChecked selTables tid then ew
      else
        (let fieldIds = checkedKeys fieldMap in
         if length fieldIds = 0 then ew
         else
           (case getTableById tid w of
              (Inl e, w1) \<Rightarrow> (errors @ [TableLoadFailed tid], w1)
            | (Inr table, w1) \<Rightarrow>
                (case getFieldMetaList table w1 of
                   (Inl e, w2) \<Rightarrow> (errors @ [TableLoadFailed tid], w2)
                 | (Inr fieldMetaList, w2) \<Rightarrow>
                     (let fieldsToDelete =
                            (if Some tid = lastTableId plan
                             then filter (deletableIn fieldMetaList) fieldIds
                             else fieldIds)
                      in if length fieldsToDelete = 0 then
                           (if Some tid = lastTableId plan
                            then (errors,
                                  showToast (Info (IndexExcludedNothingLeft
                                                     (shownName (lastTableName plan)))) w2)
                            else (errors, w2))
                         else deleteFields table fieldsToDelete (errors, w2))))))"

fun deleteSelectedFields ::
  "flags \<Rightarrow> deletionPlan \<Rightarrow> (string \<times> flags) list \<Rightarrow> deletionError list \<times> world
     \<Rightarrow> deletionError list \<times> world" where
  "deleteSelectedFields selTables plan [] ew = ew"
| "deleteSelectedFields selTables plan (entry # rest) ew =
     deleteSelectedFields selTables plan rest (deleteFieldsOfEntry selTables plan entry ew)"

text \<open>The inner loop of step 3 (lines 689-696): the message names the field, or its id.\<close>

fun deleteNonIndexFields ::
  "string \<Rightarrow> IFieldMeta list \<Rightarrow> deletionError list \<times> world \<Rightarrow> deletionError list \<times> world" where
  "deleteNonIndexFields table [] ew = ew"
| "deleteNonIndexFields table (field # rest) (errors, w) =
     (case deleteField table (fieldId field) w of
        (Inl e, w1) \<Rightarrow>
          deleteNonIndexFields table rest
            (errors @ [FieldDeleteFailed (orElse (fieldName field) (fieldId field))], w1)
      | (Inr u, w1) \<Rightarrow> deleteNonIndexFields table rest (errors, w1))"

text \<open>
  Step 3 (lines 681-704): when the kept table was selected, all its fields but the index
  field are deleted.  \<open>lastTableId && ...\<close>: an empty id is falsy.
\<close>

definition clearLastTable ::
  "flags \<Rightarrow> deletionPlan \<Rightarrow> deletionError list \<times> world \<Rightarrow> deletionError list \<times> world" where
  "clearLastTable selTables plan ew =
     (case lastTableId plan of
        None \<Rightarrow> ew
      | Some lastId \<Rightarrow>
          if lastId \<noteq> [] \<and> isChecked selTables lastId then
            (case getTableById lastId (snd ew) of
               (Inl e, w1) \<Rightarrow> (fst ew @ [LastTableFieldsFailed], w1)
             | (Inr table, w1) \<Rightarrow>
                 (case getFieldMetaList table w1 of
                    (Inl e, w2) \<Rightarrow> (fst ew @ [LastTableFieldsFailed], w2)
                  | (Inr fieldMetaList, w2) \<Rightarrow>
                      (let nonIndexFields = filter (\<lambda>f. \<not> isPrimary f) fieldMetaList in
                       if length nonIndexFields > 0
                       then deleteNonIndexFields table nonIndexFields (fst ew, w2)
                       else (fst ew,
                             showToast (Info (OnlyIndexColumn (shownName (lastTableName plan))))
                               w2))))
          else ew)"

text \<open>
  The three steps on a plan, and \<open>performDeletion\<close> (lines 591-715).  The first
  \<open>getTableMetaList\<close> is outside every \<open>try\<close>: when it raises, the promise rejects
  and nothing else runs.
\<close>

definition executePlan :: "flags \<Rightarrow> (string \<times> flags) list \<Rightarrow> deletionPlan \<Rightarrow> world
    \<Rightarrow> deletionError list \<times> world" where
  "executePlan selTables selFields plan w =
     clearLastTable selTables plan
       (deleteSelectedFields selTables plan selFields
          (deleteTables (tableIdsToDelete plan) ([], w)))"

text \<open>The toast of line 614, shown in the branch that sets \<open>lastTableName\<close>.\<close>

definition announceRetained :: "deletionPlan \<Rightarrow> world \<Rightarrow> world" where
  "announceRetained plan w =
     (case lastTableName plan of
        None \<Rightarrow> w
      | Some name \<Rightarrow> showToast (Info (RetainLastTable name)) w)"

definition finishDeletion :: "deletionError list \<times> world \<Rightarrow> world" where
  "finishDeletion ew =
     refreshTables
       ((showToast (if length (fst ew) > 0 then Warning (DeletionPartlyFailed (fst ew))
                    else Success DeletionDone) (snd ew))
          \<lparr>selectedTables := [], selectedFields := []\<rparr>)"

definition performDeletion :: "world \<Rightarrow> (hostError + unit) \<times> world" where
  "performDeletion w =
     (case getTableMetaList w of
        (Inl e, w1) \<Rightarrow> (Inl e, w1)
      | (Inr currentTableList, w1) \<Rightarrow>
          (let plan = planDeletion currentTableList (selectedTables w) in
           (Inr (),
            finishDeletion
              (executePlan (selectedTables w) (selectedFields w) plan
                 (announceRetained plan w1)))))"

section \<open>What a run did: the deletions in the call log\<close>

text \<open>The tables and the fields (with their table) that the logged calls asked to delete.\<close>

definition tableDeletes :: "call list \<Rightarrow> string list" where
  "tableDeletes cs = concat (map (\<lambda>c. case c of DeleteTable t \<Rightarrow> [t] | _ \<Rightarrow> []) cs)"

definition fieldDeletes :: "call list \<Rightarrow> (string \<times> string) list" where
  "fieldDeletes cs = concat (map (\<lambda>c. case c of DeleteField t f \<Rightarrow> [(t, f)] | _ \<Rightarrow> []) cs)"

section \<open>The snapshot store\<close>

text \<open>
  The persisted form of a snapshot: the object \<open>JSON.stringify\<close> sees, with the keys in
  the order \<open>captureSnapshot\<close> writes them.  A property that is \<open>undefined\<close> is left
  out, as \<open>JSON.stringify\<close> leaves it out.
\<close>

definition jsonOfField :: "SnapshotField \<Rightarrow> json" where
  "jsonOfField f =
     JObject ([(''id'', JString (sfId f)), (''name'', JString (sfName f)),
               (''type'', JNumber (sfType f))]
              @ (case sfProperty f of None \<Rightarrow> [] | Some p \<Rightarrow> [(''property'', p)]))"

definition jsonOfTable :: "SnapshotTable \<Rightarrow> json" where
  "jsonOfTable t =
     JObject [(''tableId'', JString (tableId t)), (''tableName'', JString (tableName t)),
              (''fields'', JArray (map jsonOfField (tableFields t)))]"

definition jsonOfSnapshot :: "Snapshot \<Rightarrow> json" where
  "jsonOfSnapshot s =
     JObject [(''label'', JString (label s)), (''timestamp'', JString (timestamp s)),
              (''tables'', JArray (map jsonOfTable (tables s)))]"

text \<open>
  \<open>JSON.parse(raw) as Snapshot\<close>: the cast checks nothing, and the program reads the
  members by name.  The state of the model is typed as the program declares it
  (\<open>Snapshot | null\<close>), so the model reads the members the same way, and a value that
  lacks a member or holds one of another type has no reading as a snapshot: the program
  would carry such a value along and fail where it reads the member.  What is said below
  about loading is said of a cache that holds nothing, or the text \<open>persistSnapshot\<close>
  writes.
\<close>

definition fieldOfJson :: "json \<Rightarrow> SnapshotField option" where
  "fieldOfJson v =
     (case v of
        JObject ms \<Rightarrow>
          (case (map_of ms ''id'', map_of ms ''name'', map_of ms ''type'') of
             (Some (JString i), Some (JString n), Some (JNumber t)) \<Rightarrow>
               Some \<lparr>sfId = i, sfName = n, sfType = t, sfProperty = map_of ms ''property''\<rparr>
           | _ \<Rightarrow> None)
      | _ \<Rightarrow> None)"

definition tableOfJson :: "json \<Rightarrow> SnapshotTable option" where
  "tableOfJson v =
     (case v of
        JObject ms \<Rightarrow>
          (case (map_of ms ''tableId'', map_of ms ''tableName'', map_of ms ''fields'') of
             (Some (JString i), Some (JString n), Some (JArray fs)) \<Rightarrow>
               map_option (\<lambda>fields. \<lparr>tableId = i, tableName = n, tableFields = fields\<rparr>)
                 (those (map fieldOfJson fs))
           | _ \<Rightarrow> None)
      | _ \<Rightarrow> None)"

definition snapshotOfJson :: "json \<Rightarrow> Snapshot option" where
  "snapshotOfJson v =
     (case v of
        JObject ms \<Rightarrow>
          (case (map_of ms ''label'', map_of ms ''timestamp'', map_of ms ''tables'') of
             (Some (JString l), Some (JString t), Some (JArray ts)) \<Rightarrow>
               map_option (\<lambda>tabs. \<lparr>label = l, timestamp = t, tables = tabs\<rparr>)
                 (those (map tableOfJson ts))
           | _ \<Rightarrow> None)
      | _ \<Rightarrow> None)"

text \<open>\<open>loadPersistedSnapshot\<close> (lines 142-156)\<close>

definition loadPersistedSnapshot :: "world \<Rightarrow> Snapshot option" where
  "loadPersistedSnapshot w =
     (case window w of
        None \<Rightarrow> None
      | Some storage \<Rightarrow>
          if storageRaises storage then None
          else
            (case item storage of
               None \<Rightarrow> None
             | Some raw \<Rightarrow>
                 if raw = [] then None
                 else (case JSON_parse raw of
                         Inl e \<Rightarrow> None
                       | Inr v \<Rightarrow> snapshotOfJson v)))"

text \<open>\<open>persistSnapshot\<close> (lines 158-171)\<close>

definition persistSnapshot :: "Snapshot option \<Rightarrow> world \<Rightarrow> world" where
  "persistSnapshot snap w =
     (case window w of
        None \<Rightarrow> w
      | Some storage \<Rightarrow>
          if storageRaises storage then w
          else
            (case snap of
               None \<Rightarrow> w\<lparr>window := Some (storage\<lparr>item := None\<rparr>)\<rparr>
             | Some s \<Rightarrow>
                 w\<lparr>window := Some (storage\<lparr>item := Some (JSON_stringify (jsonOfSnapshot s))\<rparr>)\<rparr>))"

text \<open>\<open>syncBridgeSnapshot\<close> (lines 442-452): \<open>bridge.setData(BRIDGE_SNAPSHOT_KEY, snapshot)\<close>.\<close>

definition syncBridgeSnapshot :: "Snapshot option \<Rightarrow> world \<Rightarrow> world" where
  "syncBridgeSnapshot snap w =
     (case bridge w of
        None \<Rightarrow> w
      | Some b \<Rightarrow>
          if \<not> hasSetData b then w
          else if setDataRaises b then w
          else w\<lparr>bridge :=
                 Some (b\<lparr>bridgeData := (case snap of None \<Rightarrow> Null | Some s \<Rightarrow> Stored s)\<rparr>)\<rparr>)"

text \<open>
  \<open>setSnapshot(value)\<close> with the effect that depends on \<open>[snapshot]\<close> (lines 438-455): once
  the state holds the new value, the effect writes it to both stores.  React runs no
  effect when the state keeps its value, which here happens only from \<open>null\<close> to
  \<open>null\<close>: every snapshot the program sets is a fresh object.
\<close>

definition setSnapshot :: "Snapshot option \<Rightarrow> world \<Rightarrow> world" where
  "setSnapshot snap w =
     (if snapshot w = None \<and> snap = None then w
      else syncBridgeSnapshot snap (persistSnapshot snap (w\<lparr>snapshot := snap\<rparr>)))"

text \<open>
  The snapshots the persisted form is exact on: type codes within the safe integers,
  property payloads that are such trees.
\<close>

definition wfField :: "SnapshotField \<Rightarrow> bool" where
  "wfField f =
     (- 9007199254740991 \<le> sfType f \<and> sfType f \<le> 9007199254740991
      \<and> (case sfProperty f of None \<Rightarrow> True | Some p \<Rightarrow> wfJson p))"

definition wfSnapshot :: "Snapshot \<Rightarrow> bool" where
  "wfSnapshot s = list_all (\<lambda>t. list_all wfField (tableFields t)) (tables s)"

section \<open>Loading the snapshot when the component mounts\<close>

text \<open>
  The effect of lines 438-455, which React runs after every render in which \<open>snapshot\<close>
  has changed, and after the first render: it writes the snapshot of that render to both
  stores.
\<close>

definition snapshotEffect :: "world \<Rightarrow> world" where
  "snapshotEffect w = syncBridgeSnapshot (snapshot w) (persistSnapshot (snapshot w) w)"








section \<open>Capturing a snapshot\<close>

text \<open>
  The clock.  \<open>new Date()\<close> is a reading of it, given by its fields in UTC, and
  \<open>toISOString\<close> prints \<open>YYYY-MM-DDTHH:mm:ss.sssZ\<close> (for the years of four digits).
\<close>

record Date =
  year :: nat
  month :: nat
  day :: nat
  hours :: nat
  minutes :: nat
  seconds :: nat
  milliseconds :: nat

definition padStart :: "nat \<Rightarrow> nat \<Rightarrow> string" where
  "padStart width n = replicate (width - length (decimal n)) (CHR ''0'') @ decimal n"

definition toISOString :: "Date \<Rightarrow> string" where
  "toISOString d =
     padStart 4 (year d) @ ''-'' @ padStart 2 (month d) @ ''-'' @ padStart 2 (day d) @ ''T''
     @ padStart 2 (hours d) @ '':'' @ padStart 2 (minutes d) @ '':'' @ padStart 2 (seconds d)
     @ ''.'' @ padStart 3 (milliseconds d) @ ''Z''"

definition validDate :: "Date \<Rightarrow> bool" where
  "validDate d =
     (year d \<le> 9999 \<and> 1 \<le> month d \<and> month d \<le> 12 \<and> 1 \<le> day d \<and> day d \<le> 31
      \<and> hours d \<le> 23 \<and> minutes d \<le> 59 \<and> seconds d \<le> 59 \<and> milliseconds d \<le> 999)"

text \<open>The shape of an ISO-8601 instant: \<open>d\<close> stands for a digit.\<close>

definition shapeChar :: "char \<Rightarrow> char \<Rightarrow> bool" where
  "shapeChar c t = (if t = CHR ''d'' then isDigit c else c = t)"

definition isIso8601 :: "string \<Rightarrow> bool" where
  "isIso8601 s = list_all2 shapeChar s ''dddd-dd-ddTdd:dd:dd.dddZ''"

text \<open>
  \<open>cloneJson\<close> (lines 130-140): a copy through JSON text, the value itself when that
  fails.
\<close>

definition cloneJson :: "json option \<Rightarrow> json option" where
  "cloneJson v =
     (case v of
        None \<Rightarrow> None
      | Some x \<Rightarrow>
          (case JSON_parse (JSON_stringify x) of
             Inl e \<Rightarrow> Some x
           | Inr y \<Rightarrow> Some y))"

text \<open>\<open>'unnamed table'\<close> (line 562) and \<open>'unnamed field'\<close> (line 565), in UTF-8.\<close>

definition unnamedTable :: string where
  "unnamedTable =
     [CHR 0xE6, CHR 0x97, CHR 0xA0, CHR 0xE5, CHR 0x90, CHR 0x8D, CHR 0xE8, CHR 0xA1, CHR 0xA8]"

definition unnamedField :: string where
  "unnamedField =
     [CHR 0xE6, CHR 0x97, CHR 0xA0, CHR 0xE5, CHR 0x90, CHR 0x8D, CHR 0xE5, CHR 0xAD, CHR 0x97,
      CHR 0xE6, CHR 0xAE, CHR 0xB5]"

definition snapshotFieldOf :: "IFieldMeta \<Rightarrow> SnapshotField" where
  "snapshotFieldOf field =
     \<lparr>sfId = fieldId field, sfName = nullish (fieldName field) unnamedField,
      sfType = fieldType field, sfProperty = cloneJson (fieldProperty field)\<rparr>"

definition snapshotTableOf :: "TableBundle \<Rightarrow> SnapshotTable" where
  "snapshotTableOf b =
     \<lparr>tableId = metaId (meta b), tableName = nullish (metaName (meta b)) unnamedTable,
      tableFields = map snapshotFieldOf (fieldMetas b)\<rparr>"

text \<open>
  \<open>captureSnapshot\<close> (lines 551-589).  The reads are those of \<open>loadBundles\<close>: the same
  \<open>Promise.all\<close> over the table list.  Any read that raises lands in the \<open>catch\<close>, which
  sets no snapshot.
\<close>

definition captureFailed :: "world \<Rightarrow> bool \<times> world" where
  "captureFailed w = (False, (showToast (Error SnapshotFailed) w)\<lparr>snapshotBusy := False\<rparr>)"

definition captureSnapshot :: "string \<Rightarrow> Date \<Rightarrow> world \<Rightarrow> bool \<times> world" where
  "captureSnapshot lbl now w =
     (case getTableMetaList (w\<lparr>snapshotBusy := True\<rparr>) of
        (Inl e, w1) \<Rightarrow> captureFailed w1
      | (Inr metaList, w1) \<Rightarrow>
          (case loadBundles metaList w1 of
             (Inl e, w2) \<Rightarrow> captureFailed w2
           | (Inr bundles, w2) \<Rightarrow>
               (True,
                (showToast (Success SnapshotDone)
                   (setSnapshot
                      (Some \<lparr>label = lbl, timestamp = toISOString now,
                             tables = map snapshotTableOf bundles\<rparr>) w2))
                  \<lparr>snapshotBusy := False\<rparr>)))"

section \<open>The delete flow\<close>

text \<open>\<open>selectedTableCount\<close>, \<open>selectedFieldCount\<close> and \<open>totalSelectedTargets\<close> (lines 256-271).\<close>

definition selectedTableCount :: "world \<Rightarrow> nat" where
  "selectedTableCount w = length (filter snd (selectedTables w))"

definition selectedFieldCount :: "world \<Rightarrow> nat" where
  "selectedFieldCount w =
     foldl (\<lambda>sum tableSelection. sum + length (filter snd (snd tableSelection))) 0 (selectedFields w)"

definition totalSelectedTargets :: "world \<Rightarrow> nat" where
  "totalSelectedTargets w = selectedTableCount w + selectedFieldCount w"

text \<open>The label of the automatic snapshot (line 723), "automatic snapshot before deletion".\<close>

definition autoSnapshotLabel :: string where
  "autoSnapshotLabel =
     [CHR 0xE5, CHR 0x88, CHR 0xA0, CHR 0xE9, CHR 0x99, CHR 0xA4, CHR 0xE5, CHR 0x89, CHR 0x8D,
      CHR 0xE8, CHR 0x87, CHR 0xAA, CHR 0xE5, CHR 0x8A, CHR 0xA8, CHR 0xE5, CHR 0xBF, CHR 0xAB,
      CHR 0xE7, CHR 0x85, CHR 0xA7]"

text \<open>The \<open>try { await performDeletion() } finally { setDeleteBusy(false) }\<close> of both paths.\<close>

definition deleteThenIdle :: "world \<Rightarrow> (hostError + unit) \<times> world" where
  "deleteThenIdle w = (case performDeletion w of (r, w1) \<Rightarrow> (r, w1\<lparr>deleteBusy := False\<rparr>))"

text \<open>
  \<open>handleDelete\<close> (lines 717-763).  \<open>confirmed\<close> is the user's answer to the dialog that
  opens when the snapshot failed: whether \<open>onOk\<close> runs.
\<close>

definition handleDelete :: "bool \<Rightarrow> Date \<Rightarrow> world \<Rightarrow> (hostError + unit) \<times> world" where
  "handleDelete confirmed now w =
     (if totalSelectedTargets w = 0 then (Inr (), showToast (Info NothingSelected) w)
      else
        (case captureSnapshot autoSnapshotLabel now (w\<lparr>deleteBusy := True\<rparr>) of
           (snapshotOk, w1) \<Rightarrow>
             if \<not> snapshotOk then
               (if confirmed then deleteThenIdle (w1\<lparr>deleteBusy := False\<rparr>\<lparr>deleteBusy := True\<rparr>)
                else (Inr (), w1\<lparr>deleteBusy := False\<rparr>))
             else deleteThenIdle w1))"

text \<open>
  Whether a read of the capture raises: the listing of the tables, or opening a listed
  table, or listing its fields.
\<close>

definition enumerationRaises :: "world \<Rightarrow> bool" where
  "enumerationRaises w =
     (faulty w GetTableMetaList
      \<or> list_ex (\<lambda>t. faulty w (GetTableById (metaId (meta t)))
                      \<or> faulty w (GetFieldMetaList (metaId (meta t)))) (hostTables w))"

text \<open>The fields the host reports for a table id.\<close>

definition fieldsOfTable :: "TableBundle list \<Rightarrow> string \<Rightarrow> IFieldMeta list" where
  "fieldsOfTable ts tid = (case findTable tid ts of None \<Rightarrow> [] | Some t \<Rightarrow> fieldMetas t)"

text \<open>
  The complete snapshot of a world: every table the host lists, each with the fields
  the host reports for its id, under the given label and the time of the reading.
\<close>

definition completeSnapshot :: "string \<Rightarrow> Date \<Rightarrow> world \<Rightarrow> Snapshot" where
  "completeSnapshot lbl now w =
     \<lparr>label = lbl, timestamp = toISOString now,
      tables = map (\<lambda>t. snapshotTableOf
                      \<lparr>meta = meta t, fieldMetas = fieldsOfTable (hostTables w) (metaId (meta t))\<rparr>)
                 (hostTables w)\<rparr>"

section \<open>Rollback\<close>

text \<open>
  The codes of the SDK's \<open>FieldType\<close> enum that the two lists name.  The enum is part of
  the SDK, not of the repository; the codes are those the SDK publishes.
\<close>

definition FieldType_SingleLink :: int where "FieldType_SingleLink = 18"
definition FieldType_Lookup :: int where "FieldType_Lookup = 19"
definition FieldType_Formula :: int where "FieldType_Formula = 20"
definition FieldType_DuplexLink :: int where "FieldType_DuplexLink = 21"
definition FieldType_CreatedTime :: int where "FieldType_CreatedTime = 1001"
definition FieldType_ModifiedTime :: int where "FieldType_ModifiedTime = 1002"
definition FieldType_CreatedUser :: int where "FieldType_CreatedUser = 1003"
definition FieldType_ModifiedUser :: int where "FieldType_ModifiedUser = 1004"
definition FieldType_AutoNumber :: int where "FieldType_AutoNumber = 1005"
definition FieldType_Barcode :: int where "FieldType_Barcode = 99001"

text \<open>Lines 112-126.\<close>

definition BLOCKED_ROLLBACK_FIELD_TYPES :: "int list" where
  "BLOCKED_ROLLBACK_FIELD_TYPES =
     [FieldType_CreatedTime, FieldType_ModifiedTime, FieldType_CreatedUser,
      FieldType_ModifiedUser, FieldType_AutoNumber]"

definition NON_PORTABLE_ROLLBACK_FIELD_TYPES :: "int set" where
  "NON_PORTABLE_ROLLBACK_FIELD_TYPES =
     {FieldType_Lookup, FieldType_SingleLink, FieldType_DuplexLink, FieldType_Formula,
      FieldType_Barcode}"

text \<open>
  The host's side of a rollback.  \<open>addTable\<close> makes a table with a fresh id and the
  index field every new table has; \<open>setField\<close> renames a field; \<open>addField\<close> appends one.
\<close>

definition addTable :: "string \<Rightarrow> world \<Rightarrow> (hostError + string) \<times> world" where
  "addTable name w =
     (if faulty w (AddTable name) then (Inl HostError, logCall (AddTable name) w)
      else
        (let tid = ''tbl'' @ decimal (fresh w);
             indexField = \<lparr>fieldId = ''fld'' @ decimal (fresh w),
                           fieldName = defaultPrimaryName w, fieldType = 1,
                           fieldProperty = None, isPrimary = True\<rparr>;
             t = \<lparr>meta = \<lparr>metaId = tid, metaName = Some name\<rparr>, fieldMetas = [indexField]\<rparr>
         in (Inr tid,
             logCall (AddTable name)
               (w\<lparr>hostTables := hostTables w @ [t], fresh := Suc (fresh w)\<rparr>))))"

definition renameField :: "string \<Rightarrow> string \<Rightarrow> string \<Rightarrow> TableBundle \<Rightarrow> TableBundle" where
  "renameField tid fid name t =
     (if metaId (meta t) = tid
      then t\<lparr>fieldMetas :=
               map (\<lambda>f. if fieldId f = fid then f\<lparr>fieldName := Some name\<rparr> else f) (fieldMetas t)\<rparr>
      else t)"

definition setFieldName :: "string \<Rightarrow> string \<Rightarrow> string \<Rightarrow> world \<Rightarrow> (hostError + unit) \<times> world" where
  "setFieldName tid fid name w =
     (if faulty w (SetFieldName tid fid name)
      then (Inl HostError, logCall (SetFieldName tid fid name) w)
      else case findTable tid (hostTables w) of
             None \<Rightarrow> (Inl NotFound, logCall (SetFieldName tid fid name) w)
           | Some t \<Rightarrow>
               (Inr (),
                logCall (SetFieldName tid fid name)
                  (w\<lparr>hostTables := map (renameField tid fid name) (hostTables w)\<rparr>)))"

definition appendField :: "string \<Rightarrow> IFieldMeta \<Rightarrow> TableBundle \<Rightarrow> TableBundle" where
  "appendField tid f t =
     (if metaId (meta t) = tid then t\<lparr>fieldMetas := fieldMetas t @ [f]\<rparr> else t)"

definition addField ::
  "string \<Rightarrow> int \<Rightarrow> string \<Rightarrow> json option \<Rightarrow> world \<Rightarrow> (hostError + string) \<times> world" where
  "addField tid ty name prop w =
     (if faulty w (AddField tid ty name prop)
      then (Inl HostError, logCall (AddField tid ty name prop) w)
      else case findTable tid (hostTables w) of
             None \<Rightarrow> (Inl NotFound, logCall (AddField tid ty name prop) w)
           | Some t \<Rightarrow>
               (let f = \<lparr>fieldId = ''fld'' @ decimal (fresh w), fieldName = Some name,
                         fieldType = ty, fieldProperty = prop, isPrimary = False\<rparr>
                in (Inr (fieldId f),
                    logCall (AddField tid ty name prop)
                      (w\<lparr>hostTables := map (appendField tid f) (hostTables w),
                         fresh := Suc (fresh w)\<rparr>))))"

text \<open>The recycling sign and a space (line 778), in UTF-8.\<close>

definition restoredPrefix :: string where
  "restoredPrefix = [CHR 0xE2, CHR 0x99, CHR 0xBB, CHR 0xEF, CHR 0xB8, CHR 0x8F, CHR 0x20]"

text \<open>\<open>`${baseRollbackName} (${suffix})`\<close>\<close>

definition numbered :: "string \<Rightarrow> nat \<Rightarrow> string" where
  "numbered base suffix = base @ '' ('' @ decimal suffix @ '')''"

text \<open>
  The numbered names of one base are all different: the measure of the loop below.
\<close>

lemma decimal_inj: "decimal m = decimal n \<Longrightarrow> m = n"
  by (metis digitsValue_decimal)

lemma numbered_inj: "numbered base m = numbered base n \<Longrightarrow> m = n"
  by (simp add: numbered_def decimal_inj)

lemma finite_numbered_in: "finite {k. numbered base k \<in> set existing}"
proof -
  have "{k. numbered base k \<in> set existing} = numbered base -` set existing" by auto
  moreover have "inj (numbered base)" by (auto intro: injI numbered_inj)
  ultimately show ?thesis by (simp add: finite_vimageI)
qed

text \<open>
  The loop of lines 780-785, on its two variables: the name is renumbered for as long as
  the set of existing names has it.
\<close>

function chooseName :: "string list \<Rightarrow> string \<Rightarrow> string \<Rightarrow> nat \<Rightarrow> string" where
  "chooseName existing base rollbackTableName suffix =
     (if rollbackTableName \<in> set existing
      then chooseName existing base (numbered base suffix) (suffix + 1)
      else rollbackTableName)"
  by pat_completeness auto
termination
proof (relation "measure (\<lambda>(existing, base, name, suffix).
          card {k. suffix \<le> k \<and> numbered base k \<in> set existing}
          + (if name \<in> set existing then 1 else 0))")
  show "wf (measure (\<lambda>(existing, base, name, suffix).
          card {k. suffix \<le> k \<and> numbered base k \<in> set existing}
          + (if name \<in> set existing then 1 else 0)))"
    by simp
next
  fix existing :: "string list" and base rollbackTableName :: string and suffix :: nat
  assume "rollbackTableName \<in> set existing"
  let ?A = "{k. suffix \<le> k \<and> numbered base k \<in> set existing}"
  let ?B = "{k. suffix + 1 \<le> k \<and> numbered base k \<in> set existing}"
  have fin: "finite ?A"
    by (rule finite_subset [OF _ finite_numbered_in [of base existing]]) auto
  have "card ?B + (if numbered base suffix \<in> set existing then 1 else 0) \<le> card ?A"
  proof (cases "numbered base suffix \<in> set existing")
    case True
    have "?A = insert suffix ?B" using True by (auto simp: le_Suc_eq)
    moreover have "suffix \<notin> ?B" by simp
    moreover have "finite ?B"
      by (rule finite_subset [OF _ finite_numbered_in [of base existing]]) auto
    ultimately show ?thesis using True by simp
  next
    case False
    have "?B \<subseteq> ?A" by auto
    then show ?thesis using False fin by (simp add: card_mono)
  qed
  then show "((existing, base, numbered base suffix, suffix + 1),
              (existing, base, rollbackTableName, suffix))
        \<in> measure (\<lambda>(existing, base, name, suffix).
            card {k. suffix \<le> k \<and> numbered base k \<in> set existing}
            + (if name \<in> set existing then 1 else 0))"
    using \<open>rollbackTableName \<in> set existing\<close> by simp
qed

declare chooseName.simps [simp del]

text \<open>Lines 778-785: the name under which a snapshot table is rebuilt.\<close>

definition rollbackNameFor :: "string list \<Rightarrow> string \<Rightarrow> string" where
  "rollbackNameFor existing originalName =
     chooseName existing (restoredPrefix @ originalName) (restoredPrefix @ originalName) 1"

text \<open>\<open>'primary key'\<close> (line 803) and the mark \<open>'(system default)'\<close> (line 801), in UTF-8.\<close>

definition primaryKeyName :: string where
  "primaryKeyName = [CHR 0xE4, CHR 0xB8, CHR 0xBB, CHR 0xE9, CHR 0x94, CHR 0xAE]"

definition systemDefaultMark :: string where
  "systemDefaultMark =
     [CHR 0x28, CHR 0xE7, CHR 0xB3, CHR 0xBB, CHR 0xE7, CHR 0xBB, CHR 0x9F, CHR 0xE9, CHR 0xBB,
      CHR 0x98, CHR 0xE8, CHR 0xAE, CHR 0xA4, CHR 0x29]"

text \<open>\<open>String.prototype.includes\<close>\<close>

fun stringIncludes :: "string \<Rightarrow> string \<Rightarrow> bool" where
  "stringIncludes [] pat = (pat = [])"
| "stringIncludes (c # s) pat = (take (length pat) (c # s) = pat \<or> stringIncludes s pat)"

text \<open>
  Lines 795-811: the index field of the new table is marked as the system's, unless its
  name carries the mark already.
\<close>

definition safePrimaryName :: "string option \<Rightarrow> string" where
  "safePrimaryName name =
     (case name of
        None \<Rightarrow> orElse name primaryKeyName @ '' '' @ systemDefaultMark
      | Some n \<Rightarrow>
          if stringIncludes n systemDefaultMark then n
          else orElse name primaryKeyName @ '' '' @ systemDefaultMark)"

definition renamePrimary ::
  "string \<Rightarrow> string \<Rightarrow> rollbackNote list \<times> world \<Rightarrow> rollbackNote list \<times> world" where
  "renamePrimary table rollbackTableName ew =
     (case getFieldMetaList table (snd ew) of
        (Inl e, w1) \<Rightarrow> (fst ew @ [PrimaryRenameFailed rollbackTableName], w1)
      | (Inr currentFieldMetas, w1) \<Rightarrow>
          (case find isPrimary currentFieldMetas of
             None \<Rightarrow> (fst ew, w1)
           | Some primaryField \<Rightarrow>
               if Some (safePrimaryName (fieldName primaryField)) \<noteq> fieldName primaryField then
                 (case setFieldName table (fieldId primaryField)
                         (safePrimaryName (fieldName primaryField)) w1 of
                    (Inl e, w2) \<Rightarrow> (fst ew @ [PrimaryRenameFailed rollbackTableName], w2)
                  | (Inr u, w2) \<Rightarrow> (fst ew, w2))
               else (fst ew, w1)))"

text \<open>
  The loop over the fields of one snapshot table (lines 813-843): a blocked type and a
  non-portable type each leave a note, any other field is added with its type, name and
  property, and a refusal of the host leaves a note too.
\<close>

fun rebuildFields ::
  "string \<Rightarrow> string \<Rightarrow> SnapshotField list \<Rightarrow> rollbackNote list \<times> world
     \<Rightarrow> rollbackNote list \<times> world" where
  "rebuildFields table rollbackTableName [] ew = ew"
| "rebuildFields table rollbackTableName (field # rest) (errors, w) =
     (if sfType field \<in> set BLOCKED_ROLLBACK_FIELD_TYPES then
        rebuildFields table rollbackTableName rest
          (errors @ [SystemFieldSkipped (sfName field) (sfType field)], w)
      else if sfType field \<in> NON_PORTABLE_ROLLBACK_FIELD_TYPES then
        rebuildFields table rollbackTableName rest
          (errors @ [ComplexFieldUnsupported (sfName field) (sfType field)], w)
      else
        (case addField table (sfType field) (sfName field) (sfProperty field) w of
           (Inl e, w1) \<Rightarrow>
             rebuildFields table rollbackTableName rest
               (errors @ [FieldRebuildFailed (sfName field) rollbackTableName], w1)
         | (Inr fid, w1) \<Rightarrow> rebuildFields table rollbackTableName rest (errors, w1)))"

text \<open>
  One round of the loop over the snapshot's tables (lines 777-848).  The state is the
  set of existing names, the notes collected (\<open>errors\<close>), and the world.  The name joins the set once
  \<open>addTable\<close> has answered; a table-level failure leaves its note and ends the round.
\<close>

record rollbackState =
  existingTableNames :: "string list"
  rollbackErrors :: "rollbackNote list"
  after :: world

definition rollbackTable :: "SnapshotTable \<Rightarrow> rollbackState \<Rightarrow> rollbackState" where
  "rollbackTable tableSnap st =
     (let rollbackTableName = rollbackNameFor (existingTableNames st) (tableName tableSnap) in
      case addTable rollbackTableName (after st) of
        (Inl e, w1) \<Rightarrow>
          st\<lparr>rollbackErrors := rollbackErrors st @ [TableRebuildFailed rollbackTableName], after := w1\<rparr>
      | (Inr newId, w1) \<Rightarrow>
          (case getTableById newId w1 of
             (Inl e, w2) \<Rightarrow>
               \<lparr>existingTableNames = existingTableNames st @ [rollbackTableName],
                rollbackErrors = rollbackErrors st @ [TableRebuildFailed rollbackTableName], after = w2\<rparr>
           | (Inr table, w2) \<Rightarrow>
               (let done = rebuildFields table rollbackTableName (tableFields tableSnap)
                             (renamePrimary table rollbackTableName (rollbackErrors st, w2))
                in \<lparr>existingTableNames = existingTableNames st @ [rollbackTableName],
                    rollbackErrors = fst done, after = snd done\<rparr>)))"

fun rollbackTables :: "SnapshotTable list \<Rightarrow> rollbackState \<Rightarrow> rollbackState" where
  "rollbackTables [] st = st"
| "rollbackTables (tableSnap # rest) st = rollbackTables rest (rollbackTable tableSnap st)"

text \<open>
  \<open>handleRollback\<close> (lines 765-858).  The listing of the existing tables is inside
  \<open>try ... finally\<close> without a \<open>catch\<close>: when it raises, the promise rejects.
\<close>

definition handleRollback :: "world \<Rightarrow> (hostError + unit) \<times> world" where
  "handleRollback w =
     (case snapshot w of
        None \<Rightarrow> (Inr (), showToast (Info NoSnapshot) w)
      | Some snap \<Rightarrow>
          (case getTableMetaList (w\<lparr>rollbackBusy := True\<rparr>) of
             (Inl e, w1) \<Rightarrow> (Inl e, w1\<lparr>rollbackBusy := False\<rparr>)
           | (Inr existingTableMetaList, w1) \<Rightarrow>
               (let st = rollbackTables (tables snap)
                           \<lparr>existingTableNames =
                               map (\<lambda>m. nullish (metaName m) []) existingTableMetaList,
                            rollbackErrors = [], after = w1\<rparr>
                in (Inr (),
                    (refreshTables
                       (showToast (if length (rollbackErrors st) > 0
                                   then Warning (RollbackPartlyDone (rollbackErrors st))
                                   else Success RollbackDone) (after st)))
                      \<lparr>rollbackBusy := False\<rparr>))))"

text \<open>The three kinds of field the loop tells apart, by type code.\<close>

definition blockedType :: "SnapshotField \<Rightarrow> bool" where
  "blockedType f = (sfType f \<in> set BLOCKED_ROLLBACK_FIELD_TYPES)"

definition nonPortableType :: "SnapshotField \<Rightarrow> bool" where
  "nonPortableType f = (sfType f \<in> NON_PORTABLE_ROLLBACK_FIELD_TYPES)"

definition portableType :: "SnapshotField \<Rightarrow> bool" where
  "portableType f = (\<not> blockedType f \<and> \<not> nonPortableType f)"

text \<open>
  What a rollback did: the fields the logged calls asked to add, and the skip notes of
  each kind among the notes.
\<close>

definition fieldsAdded :: "call list \<Rightarrow> (int \<times> string \<times> json option) list" where
  "fieldsAdded cs =
     concat (map (\<lambda>c. case c of AddField t ty name prop \<Rightarrow> [(ty, name, prop)] | _ \<Rightarrow> []) cs)"

definition systemSkips :: "rollbackNote list \<Rightarrow> (string \<times> int) list" where
  "systemSkips ns =
     concat (map (\<lambda>n. case n of SystemFieldSkipped name ty \<Rightarrow> [(name, ty)] | _ \<Rightarrow> []) ns)"

definition complexSkips :: "rollbackNote list \<Rightarrow> (string \<times> int) list" where
  "complexSkips ns =
     concat (map (\<lambda>n. case n of ComplexFieldUnsupported name ty \<Rightarrow> [(name, ty)] | _ \<Rightarrow> []) ns)"

text \<open>
  The tables the logged calls asked to add, by the name asked for, and the tables the
  notes report as not rebuilt.
\<close>

definition tablesAdded :: "call list \<Rightarrow> string list" where
  "tablesAdded cs = concat (map (\<lambda>c. case c of AddTable name \<Rightarrow> [name] | _ \<Rightarrow> []) cs)"

definition rebuildFailures :: "rollbackNote list \<Rightarrow> string list" where
  "rebuildFailures ns =
     concat (map (\<lambda>n. case n of TableRebuildFailed name \<Rightarrow> [name] | _ \<Rightarrow> []) ns)"

text \<open>The names of the host's tables.\<close>

definition tableNames :: "world \<Rightarrow> string option list" where
  "tableNames w = map (\<lambda>t. metaName (meta t)) (hostTables w)"

text \<open>
  A restored name of a snapshot table: the prefixed original name, bare or with a
  number from 1 on.
\<close>

definition restoredFrom :: "string \<Rightarrow> SnapshotTable \<Rightarrow> bool" where
  "restoredFrom c t =
     (c = restoredPrefix @ tableName t
      \<or> (\<exists>n\<ge>1. c = numbered (restoredPrefix @ tableName t) n))"

text \<open>
  The state the loop of \<open>handleRollback\<close> starts in, and the state it ends in.
\<close>

definition rollbackStart :: "world \<Rightarrow> rollbackState" where
  "rollbackStart w =
     \<lparr>existingTableNames = map (\<lambda>m. nullish (metaName m) []) (map meta (hostTables w)),
      rollbackErrors = [], after = logCall GetTableMetaList (w\<lparr>rollbackBusy := True\<rparr>)\<rparr>"

definition rollbackRun :: "Snapshot \<Rightarrow> world \<Rightarrow> rollbackState" where
  "rollbackRun snap w = rollbackTables (tables snap) (rollbackStart w)"

text \<open>The toast that reports the notes of a rollback (lines 849-853).\<close>

definition rollbackReport :: "rollbackNote list \<Rightarrow> toast" where
  "rollbackReport errors =
     (if length errors > 0 then Warning (RollbackPartlyDone errors) else Success RollbackDone)"

section \<open>Small worlds for the examples\<close>

definition quietWorld :: "TableBundle list \<Rightarrow> flags \<Rightarrow> (string \<times> flags) list \<Rightarrow> world" where
  "quietWorld ts selT selF =
     \<lparr>hostTables = ts, faulty = (\<lambda>c. False), calls = [], fresh = 0,
      defaultPrimaryName = Some ''Text'', bridge = None, window = None,
      tablesState = ts, selectedTables = selT, selectedFields = selF, snapshot = None,
      snapshotBusy = False, deleteBusy = False, rollbackBusy = False, loading = False,
      loadError = False, toasts = []\<rparr>"

definition plainField :: "string \<Rightarrow> bool \<Rightarrow> IFieldMeta" where
  "plainField i p = \<lparr>fieldId = i, fieldName = Some i, fieldType = 1, fieldProperty = None, isPrimary = p\<rparr>"

definition plainTable :: "string \<Rightarrow> IFieldMeta list \<Rightarrow> TableBundle" where
  "plainTable i fs = \<lparr>meta = \<lparr>metaId = i, metaName = Some i\<rparr>, fieldMetas = fs\<rparr>"

definition twoTables :: "TableBundle list" where
  "twoTables =
     [plainTable ''A'' [plainField ''a0'' True, plainField ''a1'' False],
      plainTable ''B'' [plainField ''b0'' True, plainField ''b1'' False]]"

text \<open>
  \<open>staleSelection\<close>: tables A and B; B and a table X that no longer exists are checked.
  \<open>tableAndFieldSelected\<close>: the only table is checked, and so is one of its fields.
  \<open>allFieldsSelected\<close>: tables A and B after a click on "select all fields".
\<close>

definition staleSelection :: world where
  "staleSelection = quietWorld twoTables [(''B'', True), (''X'', True)] []"

definition tableAndFieldSelected :: world where
  "tableAndFieldSelected =
     quietWorld [plainTable ''A'' [plainField ''a0'' True, plainField ''a1'' False]]
       [(''A'', True)] [(''A'', [(''a1'', True)])]"

definition allFieldsSelected :: world where
  "allFieldsSelected =
     selectVisibleFields (renderBundlesUnfiltered twoTables) (quietWorld twoTables [] [])"

text \<open>
  \<open>keptWithExtras\<close>: tables A and B, both checked, and the field b1 of B checked; B has
  another field b2 that is not checked.
\<close>

definition keptWithExtras :: world where
  "keptWithExtras =
     quietWorld
       [plainTable ''A'' [plainField ''a0'' True, plainField ''a1'' False],
        plainTable ''B'' [plainField ''b0'' True, plainField ''b1'' False, plainField ''b2'' False]]
       [(''A'', True), (''B'', True)] [(''B'', [(''b1'', True)])]"

text \<open>
  A snapshot with a plain field, a blocked one with a property and a non-portable one
  whose property is \<open>null\<close>; a world with a local storage holding a given item and a
  given bridge; a bridge that has both methods and holds a given value.
\<close>

definition sampleSnapshot :: Snapshot where
  "sampleSnapshot =
     \<lparr>label = ''manual'', timestamp = ''2024-05-01T08:30:00.000Z'',
      tables =
        [\<lparr>tableId = ''tblA'', tableName = ''Tasks'',
          tableFields =
            [\<lparr>sfId = ''fld1'', sfName = ''Title'', sfType = 1, sfProperty = None\<rparr>,
             \<lparr>sfId = ''fld2'', sfName = ''Created'', sfType = 1001,
              sfProperty = Some (JObject [(''dateFormat'', JString ''yyyy/MM/dd'')])\<rparr>,
             \<lparr>sfId = ''fld3'', sfName = ''Code'', sfType = 99001, sfProperty = Some JNull\<rparr>]\<rparr>]\<rparr>"

definition storageWorld :: "string option \<Rightarrow> Bridge option \<Rightarrow> world" where
  "storageWorld cached b =
     (quietWorld [] [] [])\<lparr>bridge := b, window := Some \<lparr>item = cached, storageRaises = False\<rparr>\<rparr>"


definition cachedSample :: "string option" where
  "cachedSample = Some (JSON_stringify (jsonOfSnapshot sampleSnapshot))"

text \<open>A reading of the clock.\<close>

definition sampleDate :: Date where
  "sampleDate = \<lparr>year = 2024, month = 5, day = 1, hours = 8, minutes = 30, seconds = 0,
                 milliseconds = 7\<rparr>"

text \<open>
  \<open>readFails\<close>: tables A and B, A checked, a snapshot held and cached, and a host that
  raises when the fields of B are listed.
\<close>

definition readFails :: world where
  "readFails =
     (quietWorld twoTables [(''A'', True)] [])
       \<lparr>faulty := (\<lambda>c. c = GetFieldMetaList ''B''), snapshot := Some sampleSnapshot,
        window := Some \<lparr>item = cachedSample, storageRaises = False\<rparr>\<rparr>"

text \<open>
  \<open>namelessField\<close>: tables A and B, where a field of A has no name and carries a
  property.
\<close>

definition namelessField :: world where
  "namelessField =
     quietWorld
       [plainTable ''A''
          [plainField ''a0'' True,
           \<lparr>fieldId = ''a1'', fieldName = None, fieldType = 2,
            fieldProperty = Some (JObject [(''formatter'', JString ''0.0'')]),
            isPrimary = False\<rparr>],
        plainTable ''B'' [plainField ''b0'' True]] [] []"





definition twinSnapshot :: Snapshot where
  "twinSnapshot =
     \<lparr>label = ''manual'', timestamp = ''2024-05-01T08:30:00.000Z'',
      tables = [\<lparr>tableId = ''tblA'', tableName = ''Tasks'', tableFields = []\<rparr>,
                \<lparr>tableId = ''tblB'', tableName = ''Tasks'', tableFields = []\<rparr>]\<rparr>"

definition twinsHeld :: world where
  "twinsHeld = (quietWorld twoTables [] [])\<lparr>snapshot := Some twinSnapshot\<rparr>"

section \<open>Notions used in the proofs\<close>

text \<open>
  Text after which a number ends: nothing, or a character that continues no number.
\<close>

definition delimited :: "string \<Rightarrow> bool" where
  "delimited rest = (rest = [] \<or>
      (\<not> isDigit (hd rest) \<and> hd rest \<noteq> CHR ''.'' \<and> hd rest \<noteq> CHR ''e'' \<and> hd rest \<noteq> CHR ''E''))"

text \<open>How deep the descent goes on the text of a tree: a bound on the first argument it needs.\<close>

primrec nesting :: "json \<Rightarrow> nat" where
  "nesting JNull = 1"
| "nesting (JBool b) = 1"
| "nesting (JNumber i) = 1"
| "nesting (JString s) = 1"
| "nesting (JArray xs) = Suc (sum_list (map nesting xs) + length xs)"
| "nesting (JObject kvs) = Suc (sum_list (map snd (map (map_prod id nesting) kvs)) + length kvs)"

text \<open>The characters a printed value starts with.\<close>

definition valueStart :: "char \<Rightarrow> bool" where
  "valueStart c = (c = CHR ''{'' \<or> c = CHR ''['' \<or> c = QUOTE \<or> c = CHR ''t'' \<or> c = CHR ''f''
      \<or> c = CHR ''n'' \<or> c = CHR ''-'' \<or> isDigit c)"

text \<open>What a step leaves alone: the snapshot, the two stores and the host's faults.\<close>

definition keeps :: "world \<Rightarrow> world \<Rightarrow> bool" where
  "keeps w w' = (snapshot w' = snapshot w \<and> window w' = window w \<and> bridge w' = bridge w
      \<and> faulty w' = faulty w)"

text \<open>A table whose handle and field list the host gives out.\<close>

definition readable :: "world \<Rightarrow> string \<Rightarrow> bool" where
  "readable w tid = (\<not> faulty w (GetTableById tid) \<and> findTable tid (hostTables w) \<noteq> None
      \<and> \<not> faulty w (GetFieldMetaList tid))"

section \<open>Reading back what was written\<close>

lemma takeWhile_digits:
  assumes "\<forall>c \<in> set ds. isDigit c" and "rest = [] \<or> \<not> isDigit (hd rest)"
  shows "takeWhile isDigit (ds @ rest) = ds" and "dropWhile isDigit (ds @ rest) = rest"
proof -
  have t: "takeWhile isDigit rest = []" using assms(2) by (cases rest) auto
  have d: "dropWhile isDigit rest = rest" using assms(2) by (cases rest) auto
  show "takeWhile isDigit (ds @ rest) = ds" using assms(1) t by (simp add: takeWhile_append2)
  show "dropWhile isDigit (ds @ rest) = rest" using assms(1) d by (simp add: dropWhile_append2)
qed

lemma minus_not_digit: "\<not> isDigit (CHR ''-'')"
  by (simp add: isDigit_def)

lemma parseNumber_print:
  assumes "delimited rest"
  shows "parseNumber (numberToString i @ rest) = Some (i, rest)"
proof -
  let ?n = "if i < 0 then nat (- i) else nat i"
  let ?ds = "decimal ?n"
  have dig: "\<forall>c \<in> set ?ds. isDigit c" by (rule decimal_digits)
  have r: "rest = [] \<or> \<not> isDigit (hd rest)" using assms by (auto simp: delimited_def)
  have tw: "takeWhile isDigit (?ds @ rest) = ?ds" and dw: "dropWhile isDigit (?ds @ rest) = rest"
    using takeWhile_digits [OF dig r] by simp_all
  have ne: "?ds \<noteq> []" by (rule decimal_nonempty)
  have lead: "\<not> (length ?ds > 1 \<and> hd ?ds = CHR ''0'')"
    using decimal_single [of ?n] decimal_hd [of ?n] by blast
  have hdd: "hd ?ds \<noteq> CHR ''-''"
    using dig ne minus_not_digit by (metis hd_in_set)
  have rr: "\<not> (rest \<noteq> [] \<and> (hd rest = CHR ''.'' \<or> hd rest = CHR ''e'' \<or> hd rest = CHR ''E''))"
    using assms by (auto simp: delimited_def)
  show ?thesis
  proof (cases "i < 0")
    case True
    then have s: "numberToString i @ rest = CHR ''-'' # (?ds @ rest)"
      by (simp add: numberToString_def)
    show ?thesis
      unfolding s parseNumber_def Let_def
      using True tw dw ne lead rr by (simp add: digitsValue_decimal)
  next
    case False
    then have s: "numberToString i @ rest = ?ds @ rest"
      by (simp add: numberToString_def)
    have h: "hd (?ds @ rest) \<noteq> CHR ''-''" using hdd ne by simp
    have n: "?ds @ rest \<noteq> []" using ne by simp
    show ?thesis
      unfolding s parseNumber_def Let_def
      using False tw dw ne lead rr h by (simp add: digitsValue_decimal)
  qed
qed

lemma hexValue_hexChar: "d < 16 \<Longrightarrow> hexValue (hexChar d) = Some d"
  by (auto simp: hexValue_def hexChar_def Let_def)

lemma hexValue_zero: "hexValue (CHR ''0'') = Some 0"
  by (simp add: hexValue_def)

lemma utf8_ascii: "(of_char c :: nat) < 128 \<Longrightarrow> utf8 (of_char c) = Some [c]"
  by (simp add: utf8_def)

lemma unicodeEscape_control:
  assumes "(of_char c :: nat) < 32"
  shows "unicodeEscape (CHR ''0'') (CHR ''0'') (hexChar (of_char c div 16)) (hexChar (of_char c mod 16))
           = Some [c]"
proof -
  have h: "hexValue (hexChar (of_char c div 16)) = Some (of_char c div 16)"
    using assms by (intro hexValue_hexChar) simp
  have l: "hexValue (hexChar (of_char c mod 16)) = Some (of_char c mod 16)"
    by (intro hexValue_hexChar) simp
  have "utf8 (of_char c div 16 * 16 + of_char c mod 16) = Some [c]"
    using assms utf8_ascii [of c] by simp
  then show ?thesis by (simp add: unicodeEscape_def h l hexValue_zero)
qed

lemma parseString_escapeChar:
  "parseString (escapeChar c @ t) = consumed [c] (parseString t)"
proof -
  consider (q) "c = QUOTE" | (b) "c = BACKSLASH" | (c8) "c = CHR 0x08" | (cC) "c = CHR 0x0C"
    | (cA) "c = CHR 0x0A" | (cD) "c = CHR 0x0D" | (c9) "c = CHR 0x09"
    | (ctl) "c \<noteq> QUOTE" "c \<noteq> BACKSLASH" "c \<noteq> CHR 0x08" "c \<noteq> CHR 0x0C" "c \<noteq> CHR 0x0A"
        "c \<noteq> CHR 0x0D" "c \<noteq> CHR 0x09" "(of_char c :: nat) < 32"
    | (plain) "c \<noteq> QUOTE" "c \<noteq> BACKSLASH" "\<not> (of_char c :: nat) < 32"
        "c \<noteq> CHR 0x08" "c \<noteq> CHR 0x0C" "c \<noteq> CHR 0x0A" "c \<noteq> CHR 0x0D" "c \<noteq> CHR 0x09"
    by blast
  then show ?thesis
  proof cases
    case q then show ?thesis by (simp add: escapeChar_def simpleEscape_def)
  next
    case b then show ?thesis by (simp add: escapeChar_def simpleEscape_def)
  next
    case c8 then show ?thesis by (simp add: escapeChar_def simpleEscape_def)
  next
    case cC then show ?thesis by (simp add: escapeChar_def simpleEscape_def)
  next
    case cA then show ?thesis by (simp add: escapeChar_def simpleEscape_def)
  next
    case cD then show ?thesis by (simp add: escapeChar_def simpleEscape_def)
  next
    case c9 then show ?thesis by (simp add: escapeChar_def simpleEscape_def)
  next
    case ctl
    then show ?thesis by (simp add: escapeChar_def unicodeEscape_control)
  next
    case plain
    then show ?thesis by (simp add: escapeChar_def)
  qed
qed

lemma parseString_escaped:
  "parseString (concat (map escapeChar s) @ QUOTE # rest) = Some (s, rest)"
proof (induction s)
  case Nil
  show ?case by simp
next
  case (Cons c s)
  have "parseString (concat (map escapeChar (c # s)) @ QUOTE # rest)
      = parseString (escapeChar c @ (concat (map escapeChar s) @ QUOTE # rest))" by simp
  also have "\<dots> = consumed [c] (parseString (concat (map escapeChar s) @ QUOTE # rest))"
    by (rule parseString_escapeChar)
  also have "\<dots> = Some (c # s, rest)" using Cons.IH by (simp add: consumed_def)
  finally show ?case .
qed

lemma parseString_quote:
  "parseString (tl (quoteJSONString s) @ rest) = Some (s, rest)"
  using parseString_escaped [of s rest] by (simp add: quoteJSONString_def)

lemma skipWs_start: "\<not> isWhitespace c \<Longrightarrow> skipWs (c # s) = c # s"
  by (simp add: skipWs_def)

lemma valueStart_facts:
  "valueStart c \<Longrightarrow> \<not> isWhitespace c \<and> c \<noteq> CHR '']'' \<and> c \<noteq> CHR ''}''"
  by (auto simp: valueStart_def isWhitespace_def isDigit_def)

lemma numberToString_start: "\<exists>c t. numberToString i = c # t \<and> (c = CHR ''-'' \<or> isDigit c)"
proof (cases "i < 0")
  case True
  then show ?thesis by (simp add: numberToString_def)
next
  case False
  obtain c t where ct: "decimal (nat i) = c # t"
    using decimal_nonempty [of "nat i"] by (cases "decimal (nat i)") auto
  then have "isDigit c" using decimal_digits [of "nat i"] by simp
  then show ?thesis using False ct by (simp add: numberToString_def)
qed

lemma stringify_start: "\<exists>c t. JSON_stringify v = c # t \<and> valueStart c"
proof (cases v)
  case (JNumber i)
  then show ?thesis using numberToString_start [of i] by (auto simp: valueStart_def)
qed (auto simp: valueStart_def quoteJSONString_def)

lemma commaSep_start:
  assumes "xs \<noteq> []" and "\<forall>x \<in> set xs. \<exists>c t. x = c # t \<and> P c"
  shows "\<exists>c t. commaSep xs = c # t \<and> P c"
proof (cases xs)
  case Nil
  then show ?thesis using assms by simp
next
  case (Cons x rest)
  obtain c t where "x = c # t" "P c" using assms(2) Cons by auto
  then show ?thesis using Cons by (cases rest) auto
qed

lemma delimited_comma: "delimited (CHR '','' # s)" "delimited (CHR '']'' # s)" "delimited (CHR ''}'' # s)"
  by (simp_all add: delimited_def isDigit_def)

lemma parseElements_print:
  assumes "xs \<noteq> []"
    and "\<forall>x \<in> set xs. \<forall>n rest. nesting x \<le> n \<longrightarrow> delimited rest \<longrightarrow>
           parseValue n (JSON_stringify x @ rest) = Some (x, rest)"
    and "sum_list (map nesting xs) + length xs \<le> n"
  shows "parseElements n (commaSep (map JSON_stringify xs) @ CHR '']'' # rest) = Some (xs, rest)"
  using assms
proof (induction xs arbitrary: n)
  case Nil
  then show ?case by simp
next
  case (Cons x xs)
  note IH = Cons.IH and prems = Cons.prems
  obtain n' where n: "n = Suc n'" using Cons.prems(3) by (cases n) auto
  have nx: "nesting x \<le> n'" using Cons.prems(3) n by simp
  have px: "\<And>r. delimited r \<Longrightarrow> parseValue n' (JSON_stringify x @ r) = Some (x, r)"
    using Cons.prems(2) nx by simp
  show ?case
  proof (cases xs)
    case Nil
    have "parseValue n' (JSON_stringify x @ CHR '']'' # rest) = Some (x, CHR '']'' # rest)"
      using px delimited_comma(2) by blast
    then show ?thesis using Nil n by (simp add: skipWs_start isWhitespace_def)
  next
    case (Cons y ys)
    let ?tail = "commaSep (map JSON_stringify xs) @ CHR '']'' # rest"
    have s: "commaSep (map JSON_stringify (x # xs)) @ CHR '']'' # rest
        = JSON_stringify x @ CHR '','' # ?tail"
      using Cons by simp
    have v: "parseValue n' (JSON_stringify x @ CHR '','' # ?tail) = Some (x, CHR '','' # ?tail)"
      using px delimited_comma(1) by blast
    have t: "parseElements n' ?tail = Some (xs, rest)"
    proof (rule IH)
      show "xs \<noteq> []" using Cons by simp
      show "\<forall>x \<in> set xs. \<forall>n rest. nesting x \<le> n \<longrightarrow> delimited rest \<longrightarrow>
           parseValue n (JSON_stringify x @ rest) = Some (x, rest)"
        using prems(2) by simp
      show "sum_list (map nesting xs) + length xs \<le> n'"
        using prems(3) n by simp
    qed
    show ?thesis
      unfolding s using n v t by (simp add: skipWs_start isWhitespace_def)
  qed
qed

lemma quote_start: "quoteJSONString k = QUOTE # tl (quoteJSONString k)"
  by (simp add: quoteJSONString_def)

lemma parseMember_head:
  assumes "\<And>r. delimited r \<Longrightarrow> parseValue n (JSON_stringify v @ r) = Some (v, r)"
    and "delimited tail"
  shows "skipWs (memberText (k, JSON_stringify v) @ tail) = QUOTE # tl (quoteJSONString k) @ CHR '':'' # JSON_stringify v @ tail"
    and "parseString (tl (quoteJSONString k) @ CHR '':'' # JSON_stringify v @ tail)
           = Some (k, CHR '':'' # JSON_stringify v @ tail)"
proof -
  have "memberText (k, JSON_stringify v) @ tail
      = QUOTE # tl (quoteJSONString k) @ CHR '':'' # JSON_stringify v @ tail"
    using quote_start [of k] by (simp add: memberText_def)
  then show "skipWs (memberText (k, JSON_stringify v) @ tail) = QUOTE # tl (quoteJSONString k) @ CHR '':'' # JSON_stringify v @ tail"
    by (simp add: skipWs_start isWhitespace_def)
  show "parseString (tl (quoteJSONString k) @ CHR '':'' # JSON_stringify v @ tail)
           = Some (k, CHR '':'' # JSON_stringify v @ tail)"
    by (rule parseString_quote)
qed

lemma parseMembers_print:
  assumes "kvs \<noteq> []"
    and "\<forall>kv \<in> set kvs. \<forall>n rest. nesting (snd kv) \<le> n \<longrightarrow> delimited rest \<longrightarrow>
           parseValue n (JSON_stringify (snd kv) @ rest) = Some (snd kv, rest)"
    and "sum_list (map snd (map (map_prod id nesting) kvs)) + length kvs \<le> n"
  shows "parseMembers n (commaSep (map memberText (map (map_prod id JSON_stringify) kvs)) @ CHR ''}'' # rest)
           = Some (kvs, rest)"
  using assms
proof (induction kvs arbitrary: n)
  case Nil
  then show ?case by simp
next
  case (Cons kv kvs)
  note IH = Cons.IH and prems = Cons.prems
  obtain k v where kv: "kv = (k, v)" by (cases kv)
  obtain n' where n: "n = Suc n'" using Cons.prems(3) by (cases n) auto
  have nx: "nesting v \<le> n'" using Cons.prems(3) n kv by simp
  have px: "\<And>r. delimited r \<Longrightarrow> parseValue n' (JSON_stringify v @ r) = Some (v, r)"
    using Cons.prems(2) nx kv by simp
  show ?case
  proof (cases kvs)
    case Nil
    let ?tail = "CHR ''}'' # rest"
    have d: "delimited ?tail" by (rule delimited_comma(3))
    have s: "commaSep (map memberText (map (map_prod id JSON_stringify) (kv # kvs))) @ CHR ''}'' # rest
        = memberText (k, JSON_stringify v) @ ?tail"
      using Nil kv by simp
    show ?thesis
      unfolding s n
      using parseMember_head [OF px d, of k] px [OF d] kv Nil
      by (simp add: skipWs_start isWhitespace_def)
  next
    case (Cons y ys)
    let ?rest = "commaSep (map memberText (map (map_prod id JSON_stringify) kvs)) @ CHR ''}'' # rest"
    let ?tail = "CHR '','' # ?rest"
    have d: "delimited ?tail" by (rule delimited_comma(1))
    have s: "commaSep (map memberText (map (map_prod id JSON_stringify) (kv # kvs))) @ CHR ''}'' # rest
        = memberText (k, JSON_stringify v) @ ?tail"
      using Cons kv by simp
    have t: "parseMembers n' ?rest = Some (kvs, rest)"
    proof (rule IH)
      show "kvs \<noteq> []" using Cons by simp
      show "\<forall>kv \<in> set kvs. \<forall>n rest. nesting (snd kv) \<le> n \<longrightarrow> delimited rest \<longrightarrow>
           parseValue n (JSON_stringify (snd kv) @ rest) = Some (snd kv, rest)"
        using prems(2) by simp
      show "sum_list (map snd (map (map_prod id nesting) kvs)) + length kvs \<le> n'"
        using prems(3) n by simp
    qed
    show ?thesis
      unfolding s n
      using parseMember_head [OF px d, of k] px [OF d] t kv
      by (simp add: skipWs_start isWhitespace_def)
  qed
qed

lemma objSet_fresh: "k \<notin> fst ` set obj \<Longrightarrow> objSet k v obj = obj @ [(k, v)]"
  by (induction obj) auto

lemma foldl_objSet_distinct:
  "distinct (map fst (acc @ ms)) \<Longrightarrow>
     foldl (\<lambda>obj m. objSet (fst m) (snd m) obj) acc ms = acc @ ms"
proof (induction ms arbitrary: acc)
  case Nil
  show ?case by simp
next
  case (Cons m ms)
  have f: "fst m \<notin> fst ` set acc" using Cons.prems by auto
  have "distinct (map fst ((acc @ [m]) @ ms))" using Cons.prems by simp
  then have "foldl (\<lambda>obj m. objSet (fst m) (snd m) obj) (acc @ [m]) ms = (acc @ [m]) @ ms"
    by (rule Cons.IH)
  then show ?case using objSet_fresh [OF f, of "snd m"] by simp
qed

lemma objectOf_distinct: "distinct (map fst kvs) \<Longrightarrow> objectOf kvs = JObject kvs"
  using foldl_objSet_distinct [of "[]" kvs] by (simp add: objectOf_def)

lemma parseValue_print:
  "wfJson v \<Longrightarrow> nesting v \<le> n \<Longrightarrow> delimited rest \<Longrightarrow>
     parseValue n (JSON_stringify v @ rest) = Some (v, rest)"
proof (induction v arbitrary: n rest)
  case JNull
  then obtain n' where "n = Suc n'" by (cases n) auto
  then show ?case by (simp add: skipWs_start isWhitespace_def stripPrefix_def)
next
  case (JBool b)
  then obtain n' where "n = Suc n'" by (cases n) auto
  then show ?case by (simp add: skipWs_start isWhitespace_def stripPrefix_def)
next
  case (JNumber i)
  then obtain n' where n: "n = Suc n'" by (cases n) auto
  obtain c t where ct: "numberToString i = c # t" "c = CHR ''-'' \<or> isDigit c"
    using numberToString_start by blast
  have nw: "\<not> isWhitespace c" and c1: "c \<noteq> CHR ''{''" and c2: "c \<noteq> CHR ''[''" and c3: "c \<noteq> QUOTE"
    and c4: "c \<noteq> CHR ''t''" and c5: "c \<noteq> CHR ''f''" and c6: "c \<noteq> CHR ''n''"
    using ct(2) by (auto simp: isWhitespace_def isDigit_def)
  have p: "parseNumber (c # t @ rest) = Some (i, rest)"
    using parseNumber_print [OF JNumber.prems(3), of i] ct(1) by simp
  show ?case using n ct(1) nw c1 c2 c3 c4 c5 c6 p by (simp add: skipWs_start)
next
  case (JString s)
  then obtain n' where n: "n = Suc n'" by (cases n) auto
  obtain q where q: "quoteJSONString s = QUOTE # q" "parseString (q @ rest) = Some (s, rest)"
    using quote_start [of s] parseString_quote [of s rest] by blast
  show ?case using n q by (simp add: skipWs_start isWhitespace_def)
next
  case (JArray xs)
  then obtain n' where n: "n = Suc n'" by (cases n) auto
  show ?case
  proof (cases "xs = []")
    case True
    then show ?thesis using n by (simp add: skipWs_start isWhitespace_def)
  next
    case False
    let ?body = "commaSep (map JSON_stringify xs) @ CHR '']'' # rest"
    have each: "\<forall>x \<in> set xs. \<forall>n rest. nesting x \<le> n \<longrightarrow> delimited rest \<longrightarrow>
           parseValue n (JSON_stringify x @ rest) = Some (x, rest)"
      using JArray.IH JArray.prems(1) by (simp add: list_all_iff)
    have fuel: "sum_list (map nesting xs) + length xs \<le> n'"
      using JArray.prems(2) n by simp
    have el: "parseElements n' ?body = Some (xs, rest)"
      by (rule parseElements_print [OF False each fuel])
    obtain c t where ct: "commaSep (map JSON_stringify xs) = c # t" "valueStart c"
      using commaSep_start [of "map JSON_stringify xs" valueStart] False stringify_start by auto
    have sk: "skipWs ?body = c # t @ CHR '']'' # rest" and nc: "c \<noteq> CHR '']''"
      using ct valueStart_facts [of c] by (simp_all add: skipWs_start)
    show ?thesis using n el sk nc by (simp add: skipWs_start isWhitespace_def)
  qed
next
  case (JObject kvs)
  then obtain n' where n: "n = Suc n'" by (cases n) auto
  have dist: "distinct (map fst kvs)" using JObject.prems(1) by simp
  show ?case
  proof (cases "kvs = []")
    case True
    then show ?thesis using n by (simp add: skipWs_start isWhitespace_def)
  next
    case False
    let ?body = "commaSep (map memberText (map (map_prod id JSON_stringify) kvs)) @ CHR ''}'' # rest"
    have each: "\<forall>kv \<in> set kvs. \<forall>n rest. nesting (snd kv) \<le> n \<longrightarrow> delimited rest \<longrightarrow>
           parseValue n (JSON_stringify (snd kv) @ rest) = Some (snd kv, rest)"
    proof (intro ballI allI impI)
      fix kv n rest
      assume kv: "kv \<in> set kvs" and a: "nesting (snd kv) \<le> n" "delimited rest"
      have w: "wfJson (snd kv)" using JObject.prems(1) kv by (auto simp: list_all_iff)
      have "snd kv \<in> Basic_BNFs.snds kv" by (cases kv) simp
      then show "parseValue n (JSON_stringify (snd kv) @ rest) = Some (snd kv, rest)"
        using JObject.IH [OF kv _ w a] by blast
    qed
    have fuel: "sum_list (map snd (map (map_prod id nesting) kvs)) + length kvs \<le> n'"
      using JObject.prems(2) n by simp
    have el: "parseMembers n' ?body = Some (kvs, rest)"
      by (rule parseMembers_print [OF False each fuel])
    have "\<forall>x \<in> set (map memberText (map (map_prod id JSON_stringify) kvs)).
            \<exists>c t. x = c # t \<and> c = QUOTE"
      by (auto simp: memberText_def quoteJSONString_def)
    then obtain c t where ct: "commaSep (map memberText (map (map_prod id JSON_stringify) kvs)) = c # t"
      "c = QUOTE"
      using commaSep_start [of "map memberText (map (map_prod id JSON_stringify) kvs)" "\<lambda>c. c = QUOTE"]
        False by auto
    have sk: "skipWs ?body = c # t @ CHR ''}'' # rest"
      using ct by (simp add: skipWs_start isWhitespace_def)
    show ?thesis using n el sk ct(2) objectOf_distinct [OF dist]
      by (simp add: skipWs_start isWhitespace_def)
  qed
qed

lemma length_commaSep: "sum_list (map length xs) + length xs \<le> Suc (length (commaSep xs))"
  by (induction xs rule: commaSep.induct) simp_all

lemma nesting_le_length: "nesting v \<le> length (JSON_stringify v)"
proof (induction v)
  case JNull
  show ?case by simp
next
  case (JBool b)
  show ?case by simp
next
  case (JNumber i)
  show ?case using numberToString_start [of i] by auto
next
  case (JString s)
  show ?case by (simp add: quoteJSONString_def)
next
  case (JArray xs)
  have "sum_list (map nesting xs) \<le> sum_list (map (\<lambda>x. length (JSON_stringify x)) xs)"
    using JArray.IH by (intro sum_list_mono) simp
  then have "sum_list (map nesting xs) + length xs
      \<le> sum_list (map length (map JSON_stringify xs)) + length (map JSON_stringify xs)"
    by (simp add: comp_def)
  also have "\<dots> \<le> Suc (length (commaSep (map JSON_stringify xs)))"
    by (rule length_commaSep)
  finally show ?case by simp
next
  case (JObject kvs)
  have "sum_list (map (\<lambda>kv. nesting (snd kv)) kvs)
      \<le> sum_list (map (\<lambda>kv. length (memberText (map_prod id JSON_stringify kv))) kvs)"
  proof (intro sum_list_mono)
    fix kv assume kv: "kv \<in> set kvs"
    have "snd kv \<in> Basic_BNFs.snds kv" by (cases kv) simp
    then have "nesting (snd kv) \<le> length (JSON_stringify (snd kv))"
      using JObject.IH kv by blast
    then show "nesting (snd kv) \<le> length (memberText (map_prod id JSON_stringify kv))"
      by (cases kv) (simp add: memberText_def)
  qed
  then have "sum_list (map snd (map (map_prod id nesting) kvs)) + length kvs
      \<le> sum_list (map length (map memberText (map (map_prod id JSON_stringify) kvs)))
          + length (map memberText (map (map_prod id JSON_stringify) kvs))"
    by (simp add: comp_def)
  also have "\<dots> \<le> Suc (length (commaSep (map memberText (map (map_prod id JSON_stringify) kvs))))"
    by (rule length_commaSep)
  finally show ?case by simp
qed

lemma JSON_parse_stringify: "wfJson v \<Longrightarrow> JSON_parse (JSON_stringify v) = Inr v"
proof -
  assume w: "wfJson v"
  have "nesting v \<le> Suc (length (JSON_stringify v))"
    using nesting_le_length [of v] by simp
  then have "parseValue (Suc (length (JSON_stringify v))) (JSON_stringify v @ []) = Some (v, [])"
    using w by (intro parseValue_print) (simp_all add: delimited_def)
  then show ?thesis by (simp add: JSON_parse_def skipWs_def)
qed

section \<open>Facts about the call log and the toasts of a deletion\<close>

lemma tableDeletes_Nil [simp]: "tableDeletes [] = []"
  by (simp add: tableDeletes_def)

lemma fieldDeletes_Nil [simp]: "fieldDeletes [] = []"
  by (simp add: fieldDeletes_def)

lemma tableDeletes_append [simp]: "tableDeletes (xs @ ys) = tableDeletes xs @ tableDeletes ys"
  by (simp add: tableDeletes_def)

lemma fieldDeletes_append [simp]: "fieldDeletes (xs @ ys) = fieldDeletes xs @ fieldDeletes ys"
  by (simp add: fieldDeletes_def)

lemma tableDeletes_Cons [simp]:
  "tableDeletes (c # cs) = (case c of DeleteTable t \<Rightarrow> [t] | _ \<Rightarrow> []) @ tableDeletes cs"
  by (simp add: tableDeletes_def)

lemma fieldDeletes_Cons [simp]:
  "fieldDeletes (c # cs) = (case c of DeleteField t f \<Rightarrow> [(t, f)] | _ \<Rightarrow> []) @ fieldDeletes cs"
  by (simp add: fieldDeletes_def)

lemma calls_logCall [simp]: "calls (logCall c w) = calls w @ [c]"
  by (simp add: logCall_def)

lemma toasts_logCall [simp]: "toasts (logCall c w) = toasts w"
  by (simp add: logCall_def)

lemma faulty_logCall [simp]: "faulty (logCall c w) = faulty w"
  by (simp add: logCall_def)

lemma hostTables_logCall [simp]: "hostTables (logCall c w) = hostTables w"
  by (simp add: logCall_def)

lemma calls_showToast [simp]: "calls (showToast t w) = calls w"
  by (simp add: showToast_def)

lemma toasts_showToast [simp]: "toasts (showToast t w) = toasts w @ [t]"
  by (simp add: showToast_def)

lemma faulty_showToast [simp]: "faulty (showToast t w) = faulty w"
  by (simp add: showToast_def)

lemma hostTables_showToast [simp]: "hostTables (showToast t w) = hostTables w"
  by (simp add: showToast_def)

lemma calls_getTableMetaList [simp]:
  "calls (snd (getTableMetaList w)) = calls w @ [GetTableMetaList]"
  by (simp add: getTableMetaList_def)

lemma calls_getTableById [simp]:
  "calls (snd (getTableById t w)) = calls w @ [GetTableById t]"
  by (simp add: getTableById_def split: option.splits)

lemma calls_getFieldMetaList [simp]:
  "calls (snd (getFieldMetaList t w)) = calls w @ [GetFieldMetaList t]"
  by (simp add: getFieldMetaList_def split: option.splits)

lemma calls_deleteTable [simp]:
  "calls (snd (deleteTable t w)) = calls w @ [DeleteTable t]"
  by (simp add: deleteTable_def split: option.splits)

lemma calls_deleteField [simp]:
  "calls (snd (deleteField t f w)) = calls w @ [DeleteField t f]"
  by (simp add: deleteField_def split: option.splits)

lemma toasts_getTableMetaList [simp]: "toasts (snd (getTableMetaList w)) = toasts w"
  by (simp add: getTableMetaList_def)

lemma toasts_getTableById [simp]: "toasts (snd (getTableById t w)) = toasts w"
  by (simp add: getTableById_def split: option.splits)

lemma toasts_getFieldMetaList [simp]: "toasts (snd (getFieldMetaList t w)) = toasts w"
  by (simp add: getFieldMetaList_def split: option.splits)

lemma toasts_deleteTable [simp]: "toasts (snd (deleteTable t w)) = toasts w"
  by (simp add: deleteTable_def split: option.splits)

lemma toasts_deleteField [simp]: "toasts (snd (deleteField t f w)) = toasts w"
  by (simp add: deleteField_def split: option.splits)

lemma calls_deleteTables:
  "calls (snd (deleteTables ids ew)) = calls (snd ew) @ map DeleteTable ids"
proof (induction ids arbitrary: ew)
  case Nil
  show ?case by simp
next
  case (Cons t ids)
  obtain errors w where ew: "ew = (errors, w)" by (cases ew)
  obtain r w1 where d: "deleteTable t w = (r, w1)" by (cases "deleteTable t w")
  have c: "calls w1 = calls w @ [DeleteTable t]"
    using calls_deleteTable [of t w] d by simp
  show ?case
    by (cases r) (simp_all add: ew d Cons.IH c)
qed

lemma toasts_deleteTables: "toasts (snd (deleteTables ids ew)) = toasts (snd ew)"
proof (induction ids arbitrary: ew)
  case Nil
  show ?case by simp
next
  case (Cons t ids)
  obtain errors w where ew: "ew = (errors, w)" by (cases ew)
  obtain r w1 where d: "deleteTable t w = (r, w1)" by (cases "deleteTable t w")
  have c: "toasts w1 = toasts w"
    using toasts_deleteTable [of t w] d by simp
  show ?case
    by (cases r) (simp_all add: ew d Cons.IH c)
qed

lemma calls_deleteFields:
  "calls (snd (deleteFields t fs ew)) = calls (snd ew) @ map (DeleteField t) fs"
proof (induction fs arbitrary: ew)
  case Nil
  show ?case by simp
next
  case (Cons f fs)
  obtain errors w where ew: "ew = (errors, w)" by (cases ew)
  obtain r w1 where d: "deleteField t f w = (r, w1)" by (cases "deleteField t f w")
  have c: "calls w1 = calls w @ [DeleteField t f]"
    using calls_deleteField [of t f w] d by simp
  show ?case
    by (cases r) (simp_all add: ew d Cons.IH c)
qed

lemma tableDeletes_map_DeleteTable [simp]: "tableDeletes (map DeleteTable ids) = ids"
  by (induction ids) (simp_all add: tableDeletes_def)

lemma fieldDeletes_map_DeleteTable [simp]: "fieldDeletes (map DeleteTable ids) = []"
  by (induction ids) (simp_all add: fieldDeletes_def)

lemma tableDeletes_map_DeleteField [simp]: "tableDeletes (map (DeleteField t) fs) = []"
  by (induction fs) (simp_all add: tableDeletes_def)

lemma fieldDeletes_map_DeleteField [simp]:
  "fieldDeletes (map (DeleteField t) fs) = map (Pair t) fs"
  by (induction fs) (simp_all add: fieldDeletes_def)

lemma getTableById_handle: "getTableById t w = (Inr h, w1) \<Longrightarrow> h = t"
  by (auto simp: getTableById_def split: if_splits option.splits)

lemma calls_deleteFieldsOfEntry:
  "\<exists>new. calls (snd (deleteFieldsOfEntry selT plan entry ew)) = calls (snd ew) @ new
     \<and> tableDeletes new = []
     \<and> fst ` set (fieldDeletes new) \<subseteq> {fst entry}
     \<and> (isChecked selT (fst entry) \<longrightarrow> new = [])"
proof -
  obtain tid fieldMap where e: "entry = (tid, fieldMap)" by (cases entry)
  obtain errors w where ew: "ew = (errors, w)" by (cases ew)
  obtain r1 w1 where g: "getTableById tid w = (r1, w1)" by (cases "getTableById tid w")
  have c1: "calls w1 = calls w @ [GetTableById tid]"
    using calls_getTableById [of tid w] g by simp
  obtain r2 w2 where f: "getFieldMetaList tid w1 = (r2, w2)" by (cases "getFieldMetaList tid w1")
  have c2: "calls w2 = calls w1 @ [GetFieldMetaList tid]"
    using calls_getFieldMetaList [of tid w1] f by simp
  show ?thesis
  proof (cases "isChecked selT tid")
    case True
    then show ?thesis
      by (simp add: deleteFieldsOfEntry_def e ew)
  next
    case False
    show ?thesis
    proof (cases "checkedKeys fieldMap = []")
      case True
      then show ?thesis using False by (simp add: deleteFieldsOfEntry_def e ew)
    next
      case ne: False
      show ?thesis
      proof (cases r1)
        case (Inl err)
        then show ?thesis using False ne g c1
          by (simp add: deleteFieldsOfEntry_def e ew)
      next
        case (Inr h)
        then have h: "h = tid" using g getTableById_handle by blast
        show ?thesis
        proof (cases r2)
          case (Inl err)
          then show ?thesis using False ne g c1 c2 f Inr h
            by (simp add: deleteFieldsOfEntry_def e ew)
        next
          case r2: (Inr fl)
          show ?thesis using False ne g c1 c2 f Inr h r2
            by (simp add: deleteFieldsOfEntry_def e ew Let_def calls_deleteFields image_subset_iff)
        qed
      qed
    qed
  qed
qed

lemma calls_deleteSelectedFields:
  "\<exists>new. calls (snd (deleteSelectedFields selT plan entries ew)) = calls (snd ew) @ new
     \<and> tableDeletes new = []
     \<and> (\<forall>t \<in> fst ` set (fieldDeletes new). t \<in> fst ` set entries \<and> \<not> isChecked selT t)"
proof (induction entries arbitrary: ew)
  case Nil
  show ?case by simp
next
  case (Cons entry entries)
  obtain n1 where n1: "calls (snd (deleteFieldsOfEntry selT plan entry ew)) = calls (snd ew) @ n1"
    "tableDeletes n1 = []" "fst ` set (fieldDeletes n1) \<subseteq> {fst entry}"
    "isChecked selT (fst entry) \<longrightarrow> n1 = []"
    using calls_deleteFieldsOfEntry [of selT plan entry ew] by blast
  obtain n2 where n2:
    "calls (snd (deleteSelectedFields selT plan entries (deleteFieldsOfEntry selT plan entry ew)))
       = calls (snd (deleteFieldsOfEntry selT plan entry ew)) @ n2"
    "tableDeletes n2 = []"
    "\<forall>t \<in> fst ` set (fieldDeletes n2). t \<in> fst ` set entries \<and> \<not> isChecked selT t"
    using Cons.IH [of "deleteFieldsOfEntry selT plan entry ew"] by blast
  have a: "\<forall>t \<in> fst ` set (fieldDeletes n1). t = fst entry \<and> \<not> isChecked selT t"
    using n1(3,4) by auto
  have "calls (snd (deleteSelectedFields selT plan (entry # entries) ew)) = calls (snd ew) @ (n1 @ n2)"
    using n1(1) n2(1) by simp
  moreover have "tableDeletes (n1 @ n2) = []" using n1(2) n2(2) by simp
  moreover have "\<forall>t \<in> fst ` set (fieldDeletes (n1 @ n2)).
      t \<in> fst ` set (entry # entries) \<and> \<not> isChecked selT t"
    using a n2(3) by auto
  ultimately show ?case by blast
qed

lemma calls_deleteNonIndexFields:
  "calls (snd (deleteNonIndexFields t fs ew)) = calls (snd ew) @ map (\<lambda>f. DeleteField t (fieldId f)) fs"
proof (induction fs arbitrary: ew)
  case Nil
  show ?case by simp
next
  case (Cons f fs)
  obtain errors w where ew: "ew = (errors, w)" by (cases ew)
  obtain r w1 where d: "deleteField t (fieldId f) w = (r, w1)"
    by (cases "deleteField t (fieldId f) w")
  have c: "calls w1 = calls w @ [DeleteField t (fieldId f)]"
    using calls_deleteField [of t "fieldId f" w] d by simp
  show ?case
    by (cases r) (simp_all add: ew d Cons.IH c)
qed

lemma tableDeletes_map_DeleteField' [simp]:
  "tableDeletes (map (\<lambda>f. DeleteField t (g f)) fs) = []"
  by (induction fs) simp_all

lemma fieldDeletes_map_DeleteField' [simp]:
  "fieldDeletes (map (\<lambda>f. DeleteField t (g f)) fs) = map (\<lambda>f. (t, g f)) fs"
  by (induction fs) simp_all

lemma calls_clearLastTable:
  "\<exists>new. calls (snd (clearLastTable selT plan ew)) = calls (snd ew) @ new
     \<and> tableDeletes new = []
     \<and> (\<forall>t \<in> fst ` set (fieldDeletes new). lastTableId plan = Some t)"
proof (cases "lastTableId plan")
  case None
  then show ?thesis by (simp add: clearLastTable_def)
next
  case (Some lastId)
  obtain errors w where ew: "ew = (errors, w)" by (cases ew)
  obtain r1 w1 where g: "getTableById lastId w = (r1, w1)" by (cases "getTableById lastId w")
  have c1: "calls w1 = calls w @ [GetTableById lastId]"
    using calls_getTableById [of lastId w] g by simp
  obtain r2 w2 where f: "getFieldMetaList lastId w1 = (r2, w2)"
    by (cases "getFieldMetaList lastId w1")
  have c2: "calls w2 = calls w1 @ [GetFieldMetaList lastId]"
    using calls_getFieldMetaList [of lastId w1] f by simp
  show ?thesis
  proof (cases "lastId \<noteq> [] \<and> isChecked selT lastId")
    case False
    then show ?thesis using Some by (auto simp: clearLastTable_def)
  next
    case True
    show ?thesis
    proof (cases r1)
      case (Inl err)
      then show ?thesis using True Some g c1 by (simp add: clearLastTable_def ew)
    next
      case (Inr h)
      then have h: "h = lastId" using g getTableById_handle by blast
      show ?thesis
      proof (cases r2)
        case (Inl err)
        then show ?thesis using True Some g c1 c2 f Inr h by (simp add: clearLastTable_def ew)
      next
        case r2: (Inr fl)
        show ?thesis using True Some g c1 c2 f Inr h r2
          by (simp add: clearLastTable_def ew Let_def calls_deleteNonIndexFields image_iff)
      qed
    qed
  qed
qed

lemma calls_loadBundles:
  "\<exists>new. calls (snd (loadBundles ms w)) = calls w @ new
      \<and> tableDeletes new = [] \<and> fieldDeletes new = []"
proof (induction ms arbitrary: w)
  case Nil
  show ?case by simp
next
  case (Cons m ms)
  obtain r1 w1 where g: "getTableById (metaId m) w = (r1, w1)"
    by (cases "getTableById (metaId m) w")
  have c1: "calls w1 = calls w @ [GetTableById (metaId m)]"
    using calls_getTableById [of "metaId m" w] g by simp
  show ?case
  proof (cases r1)
    case (Inl err)
    then show ?thesis using g c1 by simp
  next
    case (Inr h)
    obtain r2 w2 where f: "getFieldMetaList h w1 = (r2, w2)" by (cases "getFieldMetaList h w1")
    have c2: "calls w2 = calls w1 @ [GetFieldMetaList h]"
      using calls_getFieldMetaList [of h w1] f by simp
    show ?thesis
    proof (cases r2)
      case (Inl err)
      then show ?thesis using g c1 c2 f Inr by simp
    next
      case r2: (Inr fl)
      obtain r3 w3 where l: "loadBundles ms w2 = (r3, w3)" by (cases "loadBundles ms w2")
      obtain n where n: "calls w3 = calls w2 @ n" "tableDeletes n = []" "fieldDeletes n = []"
        using Cons.IH [of w2] l by auto
      show ?thesis using g c1 c2 f Inr r2 l n
        by (cases r3) simp_all
    qed
  qed
qed

lemma calls_refreshTables:
  "\<exists>new. calls (refreshTables w) = calls w @ new
      \<and> tableDeletes new = [] \<and> fieldDeletes new = []"
proof -
  let ?w0 = "w\<lparr>loading := True, loadError := False\<rparr>"
  obtain r1 w1 where g: "getTableMetaList ?w0 = (r1, w1)" by (cases "getTableMetaList ?w0")
  have c1: "calls w1 = calls w @ [GetTableMetaList]"
    using calls_getTableMetaList [of ?w0] g by simp
  show ?thesis
  proof (cases r1)
    case (Inl err)
    then show ?thesis using g c1 by (simp add: refreshTables_def refreshFailed_def)
  next
    case (Inr ms)
    obtain r2 w2 where l: "loadBundles ms w1 = (r2, w2)" by (cases "loadBundles ms w1")
    obtain n where n: "calls w2 = calls w1 @ n" "tableDeletes n = []" "fieldDeletes n = []"
      using calls_loadBundles [of ms w1] l by auto
    show ?thesis using g c1 Inr l n
      by (cases r2) (simp_all add: refreshTables_def refreshFailed_def)
  qed
qed

lemma calls_executePlan:
  "\<exists>new. calls (snd (executePlan selT selF plan w)) = calls w @ new
     \<and> tableDeletes new = tableIdsToDelete plan
     \<and> (\<forall>t \<in> fst ` set (fieldDeletes new).
           (t \<in> fst ` set selF \<and> \<not> isChecked selT t) \<or> lastTableId plan = Some t)"
proof -
  let ?e1 = "deleteTables (tableIdsToDelete plan) ([], w)"
  let ?e2 = "deleteSelectedFields selT plan selF ?e1"
  have c1: "calls (snd ?e1) = calls w @ map DeleteTable (tableIdsToDelete plan)"
    using calls_deleteTables [of "tableIdsToDelete plan" "([], w)"] by simp
  obtain n2 where n2: "calls (snd ?e2) = calls (snd ?e1) @ n2" "tableDeletes n2 = []"
    "\<forall>t \<in> fst ` set (fieldDeletes n2). t \<in> fst ` set selF \<and> \<not> isChecked selT t"
    using calls_deleteSelectedFields [of selT plan selF ?e1] by blast
  obtain n3 where n3: "calls (snd (clearLastTable selT plan ?e2)) = calls (snd ?e2) @ n3"
    "tableDeletes n3 = []" "\<forall>t \<in> fst ` set (fieldDeletes n3). lastTableId plan = Some t"
    using calls_clearLastTable [of selT plan ?e2] by blast
  have "calls (snd (executePlan selT selF plan w))
          = calls w @ (map DeleteTable (tableIdsToDelete plan) @ n2 @ n3)"
    using c1 n2(1) n3(1) by (simp add: executePlan_def)
  moreover have "tableDeletes (map DeleteTable (tableIdsToDelete plan) @ n2 @ n3)
          = tableIdsToDelete plan"
    using n2(2) n3(2) by simp
  moreover have "\<forall>t \<in> fst ` set (fieldDeletes (map DeleteTable (tableIdsToDelete plan) @ n2 @ n3)).
           (t \<in> fst ` set selF \<and> \<not> isChecked selT t) \<or> lastTableId plan = Some t"
    using n2(3) n3(3) by auto
  ultimately show ?thesis by blast
qed

lemma calls_finishDeletion:
  "\<exists>new. calls (finishDeletion ew) = calls (snd ew) @ new
     \<and> tableDeletes new = [] \<and> fieldDeletes new = []"
  unfolding finishDeletion_def
  using calls_refreshTables
    [of "(showToast (if length (fst ew) > 0 then Warning (DeletionPartlyFailed (fst ew))
                    else Success DeletionDone) (snd ew))
          \<lparr>selectedTables := [], selectedFields := []\<rparr>"]
  by simp

lemma calls_announceRetained [simp]: "calls (announceRetained plan w) = calls w"
  by (simp add: announceRetained_def split: option.splits)

lemma performDeletion_raises:
  "faulty w GetTableMetaList \<Longrightarrow> performDeletion w = (Inl HostError, logCall GetTableMetaList w)"
  by (simp add: performDeletion_def getTableMetaList_def)

lemma performDeletion_runs:
  "\<not> faulty w GetTableMetaList \<Longrightarrow>
     performDeletion w =
       (Inr (),
        finishDeletion
          (executePlan (selectedTables w) (selectedFields w)
             (planDeletion (map meta (hostTables w)) (selectedTables w))
             (announceRetained (planDeletion (map meta (hostTables w)) (selectedTables w))
                (logCall GetTableMetaList w))))"
  by (simp add: performDeletion_def getTableMetaList_def Let_def)

lemma calls_performDeletion:
  assumes "\<not> faulty w GetTableMetaList"
  shows "\<exists>new. calls (snd (performDeletion w)) = calls w @ new
     \<and> tableDeletes new = tableIdsToDelete (planDeletion (map meta (hostTables w)) (selectedTables w))
     \<and> (\<forall>t \<in> fst ` set (fieldDeletes new).
           (t \<in> fst ` set (selectedFields w) \<and> \<not> isChecked (selectedTables w) t)
           \<or> lastTableId (planDeletion (map meta (hostTables w)) (selectedTables w)) = Some t)"
proof -
  let ?plan = "planDeletion (map meta (hostTables w)) (selectedTables w)"
  let ?w1 = "announceRetained ?plan (logCall GetTableMetaList w)"
  let ?ew = "executePlan (selectedTables w) (selectedFields w) ?plan ?w1"
  obtain n1 where n1: "calls (snd ?ew) = calls ?w1 @ n1" "tableDeletes n1 = tableIdsToDelete ?plan"
    "\<forall>t \<in> fst ` set (fieldDeletes n1).
           (t \<in> fst ` set (selectedFields w) \<and> \<not> isChecked (selectedTables w) t)
           \<or> lastTableId ?plan = Some t"
    using calls_executePlan [of "selectedTables w" "selectedFields w" ?plan ?w1] by blast
  obtain n2 where n2: "calls (finishDeletion ?ew) = calls (snd ?ew) @ n2"
    "tableDeletes n2 = []" "fieldDeletes n2 = []"
    using calls_finishDeletion [of ?ew] by blast
  have "calls (snd (performDeletion w)) = calls w @ (GetTableMetaList # n1 @ n2)"
    using n1(1) n2(1) by (simp add: performDeletion_runs [OF assms])
  moreover have "tableDeletes (GetTableMetaList # n1 @ n2) = tableIdsToDelete ?plan"
    using n1(2) n2(2) by simp
  moreover have "\<forall>t \<in> fst ` set (fieldDeletes (GetTableMetaList # n1 @ n2)).
           (t \<in> fst ` set (selectedFields w) \<and> \<not> isChecked (selectedTables w) t)
           \<or> lastTableId ?plan = Some t"
    using n1(3) n2(3) by simp
  ultimately show ?thesis by blast
qed

lemma isChecked_checkedKeys: "isChecked obj k \<Longrightarrow> k \<in> set (checkedKeys obj)"
proof -
  assume "isChecked obj k"
  then have "(k, True) \<in> set obj" by (simp add: isChecked_def map_of_SomeD)
  then have "(k, True) \<in> set (filter snd obj)" by simp
  then show ?thesis unfolding checkedKeys_def by force
qed

lemma all_checked_length:
  assumes "distinct ids" and "\<forall>i \<in> set ids. isChecked obj i"
  shows "length ids \<le> length (checkedKeys obj)"
proof -
  have "set ids \<subseteq> set (checkedKeys obj)" using assms(2) isChecked_checkedKeys by blast
  then have "card (set ids) \<le> card (set (checkedKeys obj))" by (simp add: card_mono)
  also have "\<dots> \<le> length (checkedKeys obj)" by (rule card_length)
  finally show ?thesis using assms(1) by (simp add: distinct_card)
qed

lemma planDeletion_retains:
  assumes "currentTableList \<noteq> []"
    and "length (map metaId currentTableList) \<le> length (checkedKeys selT)"
  shows "planDeletion currentTableList selT =
     \<lparr>lastTableId = Some (metaId (last currentTableList)),
      lastTableName = Some (orElse (metaName (last currentTableList)) unknownTableName),
      tableIdsToDelete = filter (\<lambda>i. i \<noteq> metaId (last currentTableList)) (checkedKeys selT)\<rparr>"
  using assms by (simp add: planDeletion_def Let_def last_map)

lemma toasts_deleteFields: "toasts (snd (deleteFields t fs ew)) = toasts (snd ew)"
proof (induction fs arbitrary: ew)
  case Nil
  show ?case by simp
next
  case (Cons f fs)
  obtain errors w where ew: "ew = (errors, w)" by (cases ew)
  obtain r w1 where d: "deleteField t f w = (r, w1)" by (cases "deleteField t f w")
  have c: "toasts w1 = toasts w"
    using toasts_deleteField [of t f w] d by simp
  show ?case
    by (cases r) (simp_all add: ew d Cons.IH c)
qed

lemma toasts_deleteNonIndexFields: "toasts (snd (deleteNonIndexFields t fs ew)) = toasts (snd ew)"
proof (induction fs arbitrary: ew)
  case Nil
  show ?case by simp
next
  case (Cons f fs)
  obtain errors w where ew: "ew = (errors, w)" by (cases ew)
  obtain r w1 where d: "deleteField t (fieldId f) w = (r, w1)"
    by (cases "deleteField t (fieldId f) w")
  have c: "toasts w1 = toasts w"
    using toasts_deleteField [of t "fieldId f" w] d by simp
  show ?case
    by (cases r) (simp_all add: ew d Cons.IH c)
qed

lemma toasts_deleteFieldsOfEntry:
  "\<exists>ts. toasts (snd (deleteFieldsOfEntry selT plan entry ew)) = toasts (snd ew) @ ts"
proof -
  obtain tid fieldMap where e: "entry = (tid, fieldMap)" by (cases entry)
  obtain errors w where ew: "ew = (errors, w)" by (cases ew)
  obtain r1 w1 where g: "getTableById tid w = (r1, w1)" by (cases "getTableById tid w")
  have c1: "toasts w1 = toasts w" using toasts_getTableById [of tid w] g by simp
  show ?thesis
  proof (cases r1)
    case (Inl err)
    then show ?thesis using g c1 by (simp add: deleteFieldsOfEntry_def e ew Let_def)
  next
    case (Inr h)
    obtain r2 w2 where f: "getFieldMetaList h w1 = (r2, w2)" by (cases "getFieldMetaList h w1")
    have c2: "toasts w2 = toasts w1" using toasts_getFieldMetaList [of h w1] f by simp
    show ?thesis using g c1 c2 f Inr
      by (cases r2) (simp_all add: deleteFieldsOfEntry_def e ew Let_def toasts_deleteFields)
  qed
qed

lemma toasts_deleteSelectedFields:
  "\<exists>ts. toasts (snd (deleteSelectedFields selT plan entries ew)) = toasts (snd ew) @ ts"
proof (induction entries arbitrary: ew)
  case Nil
  show ?case by simp
next
  case (Cons entry entries)
  obtain t1 where t1: "toasts (snd (deleteFieldsOfEntry selT plan entry ew)) = toasts (snd ew) @ t1"
    using toasts_deleteFieldsOfEntry by blast
  obtain t2 where t2:
    "toasts (snd (deleteSelectedFields selT plan entries (deleteFieldsOfEntry selT plan entry ew)))
       = toasts (snd (deleteFieldsOfEntry selT plan entry ew)) @ t2"
    using Cons.IH by blast
  show ?case using t1 t2 by simp
qed

lemma toasts_clearLastTable:
  "\<exists>ts. toasts (snd (clearLastTable selT plan ew)) = toasts (snd ew) @ ts"
proof (cases "lastTableId plan")
  case None
  then show ?thesis by (simp add: clearLastTable_def)
next
  case (Some lastId)
  obtain r1 w1 where g: "getTableById lastId (snd ew) = (r1, w1)"
    by (cases "getTableById lastId (snd ew)")
  have c1: "toasts w1 = toasts (snd ew)" using toasts_getTableById [of lastId "snd ew"] g by simp
  show ?thesis
  proof (cases r1)
    case (Inl err)
    then show ?thesis using Some g c1 by (simp add: clearLastTable_def)
  next
    case (Inr h)
    obtain r2 w2 where f: "getFieldMetaList h w1 = (r2, w2)" by (cases "getFieldMetaList h w1")
    have c2: "toasts w2 = toasts w1" using toasts_getFieldMetaList [of h w1] f by simp
    show ?thesis using Some g c1 c2 f Inr
      by (cases r2) (simp_all add: clearLastTable_def Let_def toasts_deleteNonIndexFields)
  qed
qed

lemma toasts_loadBundles: "toasts (snd (loadBundles ms w)) = toasts w"
proof (induction ms arbitrary: w)
  case Nil
  show ?case by simp
next
  case (Cons m ms)
  obtain r1 w1 where g: "getTableById (metaId m) w = (r1, w1)"
    by (cases "getTableById (metaId m) w")
  have c1: "toasts w1 = toasts w" using toasts_getTableById [of "metaId m" w] g by simp
  show ?case
  proof (cases r1)
    case (Inl err)
    then show ?thesis using g c1 by simp
  next
    case (Inr h)
    obtain r2 w2 where f: "getFieldMetaList h w1 = (r2, w2)" by (cases "getFieldMetaList h w1")
    have c2: "toasts w2 = toasts w1" using toasts_getFieldMetaList [of h w1] f by simp
    show ?thesis
    proof (cases r2)
      case (Inl err)
      then show ?thesis using g c1 c2 f Inr by simp
    next
      case r2: (Inr fl)
      obtain r3 w3 where l: "loadBundles ms w2 = (r3, w3)" by (cases "loadBundles ms w2")
      have "toasts w3 = toasts w2" using Cons.IH [of w2] l by simp
      then show ?thesis using g c1 c2 f Inr r2 l
        by (cases r3) simp_all
    qed
  qed
qed

lemma toasts_refreshTables: "\<exists>ts. toasts (refreshTables w) = toasts w @ ts"
proof -
  let ?w0 = "w\<lparr>loading := True, loadError := False\<rparr>"
  obtain r1 w1 where g: "getTableMetaList ?w0 = (r1, w1)" by (cases "getTableMetaList ?w0")
  have c1: "toasts w1 = toasts w" using toasts_getTableMetaList [of ?w0] g by simp
  show ?thesis
  proof (cases r1)
    case (Inl err)
    then show ?thesis using g c1 by (simp add: refreshTables_def refreshFailed_def)
  next
    case (Inr ms)
    obtain r2 w2 where l: "loadBundles ms w1 = (r2, w2)" by (cases "loadBundles ms w1")
    have "toasts w2 = toasts w1" using toasts_loadBundles [of ms w1] l by simp
    then show ?thesis using g c1 Inr l
      by (cases r2) (simp_all add: refreshTables_def refreshFailed_def)
  qed
qed

lemma toasts_executePlan:
  "\<exists>ts. toasts (snd (executePlan selT selF plan w)) = toasts w @ ts"
proof -
  let ?e1 = "deleteTables (tableIdsToDelete plan) ([], w)"
  let ?e2 = "deleteSelectedFields selT plan selF ?e1"
  have c1: "toasts (snd ?e1) = toasts w"
    using toasts_deleteTables [of "tableIdsToDelete plan" "([], w)"] by simp
  obtain t2 where t2: "toasts (snd ?e2) = toasts (snd ?e1) @ t2"
    using toasts_deleteSelectedFields by blast
  obtain t3 where t3: "toasts (snd (clearLastTable selT plan ?e2)) = toasts (snd ?e2) @ t3"
    using toasts_clearLastTable by blast
  show ?thesis using c1 t2 t3 by (simp add: executePlan_def)
qed

lemma toasts_finishDeletion: "\<exists>ts. toasts (finishDeletion ew) = toasts (snd ew) @ ts"
proof -
  let ?w = "(showToast (if length (fst ew) > 0 then Warning (DeletionPartlyFailed (fst ew))
                    else Success DeletionDone) (snd ew))
          \<lparr>selectedTables := [], selectedFields := []\<rparr>"
  obtain ts where "toasts (refreshTables ?w) = toasts ?w @ ts"
    using toasts_refreshTables by blast
  then show ?thesis by (simp add: finishDeletion_def)
qed

lemma toasts_performDeletion_retained:
  assumes "\<not> faulty w GetTableMetaList"
    and "lastTableName (planDeletion (map meta (hostTables w)) (selectedTables w)) = Some n"
  shows "\<exists>ts. toasts (snd (performDeletion w)) = toasts w @ Info (RetainLastTable n) # ts"
proof -
  let ?plan = "planDeletion (map meta (hostTables w)) (selectedTables w)"
  let ?w1 = "announceRetained ?plan (logCall GetTableMetaList w)"
  let ?ew = "executePlan (selectedTables w) (selectedFields w) ?plan ?w1"
  have a: "toasts ?w1 = toasts w @ [Info (RetainLastTable n)]"
    using assms(2) by (simp add: announceRetained_def)
  obtain t1 where t1: "toasts (snd ?ew) = toasts ?w1 @ t1" using toasts_executePlan by blast
  obtain t2 where t2: "toasts (finishDeletion ?ew) = toasts (snd ?ew) @ t2"
    using toasts_finishDeletion by blast
  show ?thesis using a t1 t2 by (simp add: performDeletion_runs [OF assms(1)])
qed

lemma planDeletion_keeps_all:
  assumes "length (checkedKeys selT) < length currentTableList"
  shows "planDeletion currentTableList selT =
     \<lparr>lastTableId = None, lastTableName = None, tableIdsToDelete = checkedKeys selT\<rparr>"
  using assms by (simp add: planDeletion_def Let_def)

lemma DeleteTable_in_calls: "(DeleteTable t \<in> set cs) = (t \<in> set (tableDeletes cs))"
  by (induction cs) (auto split: call.splits)

lemma DeleteField_in_calls: "(DeleteField t f \<in> set cs) = ((t, f) \<in> set (fieldDeletes cs))"
  by (induction cs) (auto split: call.splits)

section \<open>Facts about the store\<close>

lemma fieldOfJson_jsonOfField: "fieldOfJson (jsonOfField f) = Some f"
  by (cases "sfProperty f") (simp_all add: fieldOfJson_def jsonOfField_def)

lemma those_map_Some: "(\<And>x. x \<in> set xs \<Longrightarrow> g (f x) = Some x) \<Longrightarrow> those (map g (map f xs)) = Some xs"
  by (induction xs) simp_all

lemma tableOfJson_jsonOfTable: "tableOfJson (jsonOfTable t) = Some t"
proof -
  have "those (map fieldOfJson (map jsonOfField (tableFields t))) = Some (tableFields t)"
    by (rule those_map_Some) (rule fieldOfJson_jsonOfField)
  then show ?thesis by (simp add: tableOfJson_def jsonOfTable_def)
qed

lemma snapshotOfJson_jsonOfSnapshot: "snapshotOfJson (jsonOfSnapshot s) = Some s"
proof -
  have "those (map tableOfJson (map jsonOfTable (tables s))) = Some (tables s)"
    by (rule those_map_Some) (rule tableOfJson_jsonOfTable)
  then show ?thesis by (simp add: snapshotOfJson_def jsonOfSnapshot_def)
qed

lemma wfJson_jsonOfField: "wfField f \<Longrightarrow> wfJson (jsonOfField f)"
  by (cases "sfProperty f") (simp_all add: wfField_def jsonOfField_def)

lemma wfJson_jsonOfTable: "list_all wfField (tableFields t) \<Longrightarrow> wfJson (jsonOfTable t)"
  by (simp add: jsonOfTable_def list_all_iff wfJson_jsonOfField)

lemma wfJson_jsonOfSnapshot: "wfSnapshot s \<Longrightarrow> wfJson (jsonOfSnapshot s)"
  by (simp add: jsonOfSnapshot_def wfSnapshot_def list_all_iff wfJson_jsonOfTable)

lemma stringify_nonempty: "JSON_stringify v \<noteq> []"
  using stringify_start [of v] by auto

lemma snapshot_showToast [simp]: "snapshot (showToast t w) = snapshot w"
  by (simp add: showToast_def)

lemma snapshot_setSnapshot: "snapshot (setSnapshot s w) = s"
  by (auto simp: setSnapshot_def syncBridgeSnapshot_def persistSnapshot_def
      split: option.splits)

text \<open>What the first run of the snapshot effect leaves in the local cache.\<close>

lemma snapshot_snapshotEffect [simp]: "snapshot (snapshotEffect w) = snapshot w"
  by (simp add: snapshotEffect_def syncBridgeSnapshot_def persistSnapshot_def
      split: option.splits)


lemma loadPersistedSnapshot_showToast [simp]:
  "loadPersistedSnapshot (showToast t w) = loadPersistedSnapshot w"
  by (simp add: loadPersistedSnapshot_def showToast_def)





section \<open>Facts about the capture\<close>

lemma keeps_refl [simp]: "keeps w w"
  by (simp add: keeps_def)

lemma keeps_trans: "keeps a b \<Longrightarrow> keeps b c \<Longrightarrow> keeps a c"
  by (simp add: keeps_def)

lemma keeps_logCall [simp]: "keeps w (logCall c w)"
  by (simp add: keeps_def logCall_def)

lemma keeps_showToast [simp]: "keeps w (showToast t w)"
  by (simp add: keeps_def showToast_def)

lemma keeps_getTableMetaList [simp]: "keeps w (snd (getTableMetaList w))"
  by (simp add: getTableMetaList_def)

lemma keeps_getTableById [simp]: "keeps w (snd (getTableById t w))"
  by (simp add: getTableById_def split: option.splits)

lemma keeps_getFieldMetaList [simp]: "keeps w (snd (getFieldMetaList t w))"
  by (simp add: getFieldMetaList_def split: option.splits)

lemma hostTables_getTableById [simp]: "hostTables (snd (getTableById t w)) = hostTables w"
  by (simp add: getTableById_def split: option.splits)

lemma hostTables_getFieldMetaList [simp]: "hostTables (snd (getFieldMetaList t w)) = hostTables w"
  by (simp add: getFieldMetaList_def split: option.splits)

lemma findTable_member: "t \<in> set ts \<Longrightarrow> findTable (metaId (meta t)) ts \<noteq> None"
  by (auto simp: findTable_def find_None_iff)

lemma findTable_distinct:
  "distinct (map (\<lambda>t. metaId (meta t)) ts) \<Longrightarrow> t \<in> set ts \<Longrightarrow> findTable (metaId (meta t)) ts = Some t"
proof (induction ts)
  case Nil
  then show ?case by simp
next
  case (Cons a ts)
  show ?case
  proof (cases "t = a")
    case True
    then show ?thesis by (simp add: findTable_def)
  next
    case False
    then have t: "t \<in> set ts" using Cons.prems(2) by simp
    then have "metaId (meta a) \<noteq> metaId (meta t)" using Cons.prems(1) by auto
    then show ?thesis using Cons.IH Cons.prems(1) t by (simp add: findTable_def)
  qed
qed

lemma loadBundles_reads:
  "keeps w (snd (loadBundles ms w)) \<and> hostTables (snd (loadBundles ms w)) = hostTables w"
proof (induction ms arbitrary: w)
  case Nil
  show ?case by simp
next
  case (Cons m ms)
  obtain r1 w1 where g: "getTableById (metaId m) w = (r1, w1)"
    by (cases "getTableById (metaId m) w")
  have k1: "keeps w w1" "hostTables w1 = hostTables w"
    using keeps_getTableById [of w "metaId m"] hostTables_getTableById [of "metaId m" w] g by simp_all
  show ?case
  proof (cases r1)
    case (Inl e)
    then show ?thesis using g k1 by simp
  next
    case (Inr h)
    obtain r2 w2 where f: "getFieldMetaList h w1 = (r2, w2)" by (cases "getFieldMetaList h w1")
    have k2: "keeps w1 w2" "hostTables w2 = hostTables w1"
      using keeps_getFieldMetaList [of w1 h] hostTables_getFieldMetaList [of h w1] f by simp_all
    show ?thesis
    proof (cases r2)
      case (Inl e)
      then show ?thesis using g f Inr k1 k2 by (auto intro: keeps_trans)
    next
      case r2: (Inr fl)
      obtain r3 w3 where l: "loadBundles ms w2 = (r3, w3)" by (cases "loadBundles ms w2")
      have k3: "keeps w2 w3" "hostTables w3 = hostTables w2" using Cons.IH [of w2] l by simp_all
      have "keeps w w3" using k1(1) k2(1) k3(1) by (blast intro: keeps_trans)
      then show ?thesis using g f Inr r2 l k1 k2 k3 by (cases r3) simp_all
    qed
  qed
qed

lemma loadBundles_ok:
  "\<forall>m \<in> set ms. readable w (metaId m) \<Longrightarrow>
     fst (loadBundles ms w)
       = Inr (map (\<lambda>m. \<lparr>meta = m, fieldMetas = fieldsOfTable (hostTables w) (metaId m)\<rparr>) ms)"
proof (induction ms arbitrary: w)
  case Nil
  show ?case by simp
next
  case (Cons m ms)
  have rm: "readable w (metaId m)" using Cons.prems by simp
  then obtain t where t: "findTable (metaId m) (hostTables w) = Some t"
    by (auto simp: readable_def)
  let ?w1 = "logCall (GetTableById (metaId m)) w"
  let ?w2 = "logCall (GetFieldMetaList (metaId m)) ?w1"
  have g: "getTableById (metaId m) w = (Inr (metaId m), ?w1)"
    using rm t by (simp add: getTableById_def readable_def)
  have f: "getFieldMetaList (metaId m) ?w1 = (Inr (fieldMetas t), ?w2)"
    using rm t by (simp add: getFieldMetaList_def readable_def)
  have "\<forall>m \<in> set ms. readable ?w2 (metaId m)"
    using Cons.prems by (simp add: readable_def)
  then have ih: "fst (loadBundles ms ?w2)
       = Inr (map (\<lambda>m. \<lparr>meta = m, fieldMetas = fieldsOfTable (hostTables ?w2) (metaId m)\<rparr>) ms)"
    by (rule Cons.IH)
  obtain r3 w3 where l: "loadBundles ms ?w2 = (r3, w3)" by (cases "loadBundles ms ?w2")
  show ?case using g f ih l t by (simp add: fieldsOfTable_def)
qed

lemma loadBundles_raises:
  "\<exists>m \<in> set ms. \<not> readable w (metaId m) \<Longrightarrow> \<exists>e. fst (loadBundles ms w) = Inl e"
proof (induction ms arbitrary: w)
  case Nil
  then show ?case by simp
next
  case (Cons m ms)
  obtain r1 w1 where g: "getTableById (metaId m) w = (r1, w1)"
    by (cases "getTableById (metaId m) w")
  show ?case
  proof (cases r1)
    case (Inl e)
    then show ?thesis using g by simp
  next
    case (Inr h)
    have h: "h = metaId m" using g Inr getTableById_handle by blast
    have a: "\<not> faulty w (GetTableById (metaId m))" "findTable (metaId m) (hostTables w) \<noteq> None"
      using g Inr by (auto simp: getTableById_def split: if_splits option.splits)
    have w1: "w1 = logCall (GetTableById (metaId m)) w"
      using g Inr by (auto simp: getTableById_def split: if_splits option.splits)
    obtain r2 w2 where f: "getFieldMetaList h w1 = (r2, w2)" by (cases "getFieldMetaList h w1")
    show ?thesis
    proof (cases r2)
      case (Inl e)
      then show ?thesis using g f Inr by simp
    next
      case r2: (Inr fl)
      have b: "\<not> faulty w (GetFieldMetaList (metaId m))"
        using f r2 h w1 by (auto simp: getFieldMetaList_def split: if_splits option.splits)
      have w2: "w2 = logCall (GetFieldMetaList (metaId m)) w1"
        using f r2 h by (auto simp: getFieldMetaList_def split: if_splits option.splits)
      have "readable w (metaId m)" using a b by (simp add: readable_def)
      then have "\<exists>m \<in> set ms. \<not> readable w (metaId m)" using Cons.prems by auto
      then have "\<exists>m \<in> set ms. \<not> readable w2 (metaId m)"
        by (simp add: readable_def w1 w2)
      then obtain e where "fst (loadBundles ms w2) = Inl e" using Cons.IH by blast
      then show ?thesis using g f Inr r2 by (cases "loadBundles ms w2") simp
    qed
  qed
qed

lemma enumerationRaises_iff:
  "enumerationRaises w =
     (faulty w GetTableMetaList \<or> (\<exists>m \<in> set (map meta (hostTables w)). \<not> readable w (metaId m)))"
  by (auto simp: enumerationRaises_def readable_def list_ex_iff findTable_member)

lemma keeps_busy [simp]: "keeps w (w\<lparr>snapshotBusy := b\<rparr>)" "keeps w (w\<lparr>deleteBusy := b\<rparr>)"
  by (simp_all add: keeps_def)

lemma keeps_captureFailed: "keeps w w1 \<Longrightarrow> keeps w (snd (captureFailed w1))"
  by (simp add: keeps_def captureFailed_def showToast_def)

lemma captureSnapshot_fails:
  assumes "enumerationRaises w"
  shows "fst (captureSnapshot lbl now w) = False" and "keeps w (snd (captureSnapshot lbl now w))"
proof -
  let ?w0 = "w\<lparr>snapshotBusy := True\<rparr>"
  obtain r1 w1 where g: "getTableMetaList ?w0 = (r1, w1)" by (cases "getTableMetaList ?w0")
  have k1: "keeps w w1"
    using keeps_getTableMetaList [of ?w0] g by (simp add: keeps_def)
  have "fst (captureSnapshot lbl now w) = False \<and> keeps w (snd (captureSnapshot lbl now w))"
  proof (cases r1)
    case (Inl e)
    then show ?thesis using g keeps_captureFailed [OF k1]
      by (simp add: captureSnapshot_def captureFailed_def)
  next
    case (Inr ms)
    have nf: "\<not> faulty w GetTableMetaList" and ms: "ms = map meta (hostTables w)"
      and w1: "w1 = logCall GetTableMetaList ?w0"
      using g Inr by (auto simp: getTableMetaList_def split: if_splits)
    have "\<exists>m \<in> set ms. \<not> readable w (metaId m)"
      using assms nf ms by (simp add: enumerationRaises_iff)
    then have "\<exists>m \<in> set ms. \<not> readable w1 (metaId m)" by (simp add: readable_def w1)
    then obtain e where e: "fst (loadBundles ms w1) = Inl e" using loadBundles_raises by blast
    obtain w2 where l: "loadBundles ms w1 = (Inl e, w2)" using e by (cases "loadBundles ms w1") simp
    have "keeps w1 w2" using loadBundles_reads [of w1 ms] l by simp
    then have "keeps w w2" using k1 keeps_trans by blast
    then show ?thesis using g Inr l keeps_captureFailed
      by (simp add: captureSnapshot_def captureFailed_def)
  qed
  then show "fst (captureSnapshot lbl now w) = False" and "keeps w (snd (captureSnapshot lbl now w))"
    by simp_all
qed

lemma window_persistSnapshot_keeps:
  "window w1 = window w \<Longrightarrow> window (persistSnapshot snap w1) = window (persistSnapshot snap w)"
  by (simp add: persistSnapshot_def split: option.splits)

lemma bridge_syncBridgeSnapshot_keeps:
  "bridge w1 = bridge w \<Longrightarrow> bridge (syncBridgeSnapshot snap w1) = bridge (syncBridgeSnapshot snap w)"
  by (simp add: syncBridgeSnapshot_def split: option.splits)

lemma window_syncBridgeSnapshot [simp]: "window (syncBridgeSnapshot snap w) = window w"
  by (simp add: syncBridgeSnapshot_def split: option.splits)

lemma bridge_persistSnapshot [simp]: "bridge (persistSnapshot snap w) = bridge w"
  by (simp add: persistSnapshot_def split: option.splits)

lemma window_setSnapshot:
  "window (setSnapshot (Some s) w) = window (persistSnapshot (Some s) w)"
proof -
  have "window (w\<lparr>snapshot := Some s\<rparr>) = window w" by simp
  then show ?thesis
    using window_persistSnapshot_keeps [of "w\<lparr>snapshot := Some s\<rparr>" w "Some s"]
    by (simp add: setSnapshot_def)
qed

lemma bridge_setSnapshot:
  "bridge (setSnapshot (Some s) w) = bridge (syncBridgeSnapshot (Some s) w)"
proof -
  have "bridge (persistSnapshot (Some s) (w\<lparr>snapshot := Some s\<rparr>)) = bridge w" by simp
  then show ?thesis
    using bridge_syncBridgeSnapshot_keeps
      [of "persistSnapshot (Some s) (w\<lparr>snapshot := Some s\<rparr>)" w "Some s"]
    by (simp add: setSnapshot_def)
qed

lemma captureSnapshot_succeeds:
  fixes lbl :: string and now :: Date and w :: world
  assumes "\<not> enumerationRaises w"
  defines "snap \<equiv> \<lparr>label = lbl, timestamp = toISOString now,
       tables = map (\<lambda>t. snapshotTableOf
                       \<lparr>meta = meta t, fieldMetas = fieldsOfTable (hostTables w) (metaId (meta t))\<rparr>)
                  (hostTables w)\<rparr>"
  shows "fst (captureSnapshot lbl now w) = True"
    and "snapshot (snd (captureSnapshot lbl now w)) = Some snap"
    and "window (snd (captureSnapshot lbl now w)) = window (persistSnapshot (Some snap) w)"
    and "bridge (snd (captureSnapshot lbl now w)) = bridge (syncBridgeSnapshot (Some snap) w)"
proof -
  let ?w0 = "w\<lparr>snapshotBusy := True\<rparr>"
  let ?w1 = "logCall GetTableMetaList ?w0"
  let ?ms = "map meta (hostTables w)"
  have nf: "\<not> faulty w GetTableMetaList" and rd: "\<forall>m \<in> set ?ms. readable w (metaId m)"
    using assms(1) by (auto simp: enumerationRaises_iff)
  have g: "getTableMetaList ?w0 = (Inr ?ms, ?w1)"
    using nf by (simp add: getTableMetaList_def)
  have "\<forall>m \<in> set ?ms. readable ?w1 (metaId m)" using rd by (simp add: readable_def)
  then have "fst (loadBundles ?ms ?w1)
       = Inr (map (\<lambda>m. \<lparr>meta = m, fieldMetas = fieldsOfTable (hostTables ?w1) (metaId m)\<rparr>) ?ms)"
    by (rule loadBundles_ok)
  then obtain w2 where l: "loadBundles ?ms ?w1
       = (Inr (map (\<lambda>m. \<lparr>meta = m, fieldMetas = fieldsOfTable (hostTables w) (metaId m)\<rparr>) ?ms), w2)"
    by (cases "loadBundles ?ms ?w1") simp
  have k: "keeps ?w1 w2" using loadBundles_reads [of ?w1 ?ms] l by simp
  have kw: "window w2 = window w" "bridge w2 = bridge w"
    using k by (simp_all add: keeps_def logCall_def)
  have c: "captureSnapshot lbl now w =
      (True, (showToast (Success SnapshotDone) (setSnapshot (Some snap) w2))\<lparr>snapshotBusy := False\<rparr>)"
    using g l by (simp add: captureSnapshot_def snap_def comp_def)
  show "fst (captureSnapshot lbl now w) = True" using c by simp
  show "snapshot (snd (captureSnapshot lbl now w)) = Some snap"
    using c by (simp add: snapshot_setSnapshot)
  show "window (snd (captureSnapshot lbl now w)) = window (persistSnapshot (Some snap) w)"
    using c window_setSnapshot [of snap w2] window_persistSnapshot_keeps [OF kw(1)]
    by (simp add: showToast_def)
  show "bridge (snd (captureSnapshot lbl now w)) = bridge (syncBridgeSnapshot (Some snap) w)"
    using c bridge_setSnapshot [of snap w2] bridge_syncBridgeSnapshot_keeps [OF kw(2)]
    by (simp add: showToast_def)
qed

lemma reported_fields_distinct:
  assumes "distinct (map (\<lambda>t. metaId (meta t)) ts)"
  shows "map (\<lambda>t. snapshotTableOf \<lparr>meta = meta t, fieldMetas = fieldsOfTable ts (metaId (meta t))\<rparr>) ts
       = map snapshotTableOf ts"
proof (rule map_cong [OF refl])
  fix t assume "t \<in> set ts"
  then have "fieldsOfTable ts (metaId (meta t)) = fieldMetas t"
    using findTable_distinct [OF assms] by (simp add: fieldsOfTable_def)
  then show "snapshotTableOf \<lparr>meta = meta t, fieldMetas = fieldsOfTable ts (metaId (meta t))\<rparr>
      = snapshotTableOf t"
    by (simp add: snapshotTableOf_def)
qed

text \<open>What the capture writes down of a table and of a field.\<close>

lemma cloneJson_wf: "wfJson p \<Longrightarrow> cloneJson (Some p) = Some p"
  by (simp add: cloneJson_def JSON_parse_stringify)

lemma snapshotFieldOf_reflects:
  "sfId (snapshotFieldOf f) = fieldId f
   \<and> sfName (snapshotFieldOf f) = (case fieldName f of None \<Rightarrow> unnamedField | Some n \<Rightarrow> n)
   \<and> sfType (snapshotFieldOf f) = fieldType f
   \<and> (case fieldProperty f of
         None \<Rightarrow> sfProperty (snapshotFieldOf f) = None
       | Some p \<Rightarrow> wfJson p \<longrightarrow> sfProperty (snapshotFieldOf f) = Some p)"
proof (cases "fieldProperty f")
  case None
  then show ?thesis by (simp add: snapshotFieldOf_def nullish_def cloneJson_def)
next
  case (Some p)
  then show ?thesis by (simp add: snapshotFieldOf_def nullish_def cloneJson_wf)
qed

lemma snapshotTableOf_reflects:
  "tableId (snapshotTableOf t) = metaId (meta t)
   \<and> tableName (snapshotTableOf t)
       = (case metaName (meta t) of None \<Rightarrow> unnamedTable | Some n \<Rightarrow> n)
   \<and> list_all2 (\<lambda>sf f. sfId sf = fieldId f
                  \<and> sfName sf = (case fieldName f of None \<Rightarrow> unnamedField | Some n \<Rightarrow> n)
                  \<and> sfType sf = fieldType f
                  \<and> (case fieldProperty f of
                        None \<Rightarrow> sfProperty sf = None
                      | Some p \<Rightarrow> wfJson p \<longrightarrow> sfProperty sf = Some p))
        (tableFields (snapshotTableOf t)) (fieldMetas t)"
proof -
  have "list_all2 (\<lambda>sf f. sfId sf = fieldId f
                  \<and> sfName sf = (case fieldName f of None \<Rightarrow> unnamedField | Some n \<Rightarrow> n)
                  \<and> sfType sf = fieldType f
                  \<and> (case fieldProperty f of
                        None \<Rightarrow> sfProperty sf = None
                      | Some p \<Rightarrow> wfJson p \<longrightarrow> sfProperty sf = Some p))
        (map snapshotFieldOf fs) fs" for fs
    unfolding list_all2_map1
    by (rule list_all2_refl) (rule snapshotFieldOf_reflects)
  then show ?thesis by (simp add: snapshotTableOf_def nullish_def)
qed

lemma completeSnapshot_reflects:
  assumes "distinct (map (\<lambda>t. metaId (meta t)) (hostTables w))"
  shows "list_all2
           (\<lambda>st t. tableId st = metaId (meta t)
              \<and> tableName st = (case metaName (meta t) of None \<Rightarrow> unnamedTable | Some n \<Rightarrow> n)
              \<and> list_all2
                  (\<lambda>sf f. sfId sf = fieldId f
                     \<and> sfName sf = (case fieldName f of None \<Rightarrow> unnamedField | Some n \<Rightarrow> n)
                     \<and> sfType sf = fieldType f
                     \<and> (case fieldProperty f of
                           None \<Rightarrow> sfProperty sf = None
                         | Some p \<Rightarrow> wfJson p \<longrightarrow> sfProperty sf = Some p))
                  (tableFields st) (fieldMetas t))
           (tables (completeSnapshot lbl now w)) (hostTables w)"
proof -
  have t: "tables (completeSnapshot lbl now w) = map snapshotTableOf (hostTables w)"
    using reported_fields_distinct [OF assms] by (simp add: completeSnapshot_def)
  show ?thesis
    unfolding t list_all2_map1
    by (rule list_all2_refl) (rule snapshotTableOf_reflects)
qed

lemma length_decimal: "0 < k \<Longrightarrow> n < 10 ^ k \<Longrightarrow> length (decimal n) \<le> k"
proof (induction n arbitrary: k rule: decimal.induct)
  case (1 n)
  show ?case
  proof (cases "n < 10")
    case True
    then show ?thesis using "1.prems" by (simp add: decimal.simps [of n])
  next
    case False
    obtain j where k: "k = Suc j" using "1.prems"(1) by (cases k) auto
    have "j \<noteq> 0" using False "1.prems"(2) k by (cases j) auto
    moreover have "n div 10 < 10 ^ j" using "1.prems"(2) k by (simp add: less_mult_imp_div_less)
    ultimately have "length (decimal (n div 10)) \<le> j" using "1.IH" False by simp
    then show ?thesis using False k by (simp add: decimal.simps [of n])
  qed
qed

lemma padStart_shape:
  assumes "0 < k" and "n < 10 ^ k"
  shows "list_all2 shapeChar (padStart k n) (replicate k (CHR ''d''))"
proof -
  have len: "length (padStart k n) = k"
    using length_decimal [OF assms] by (simp add: padStart_def)
  have "\<forall>c \<in> set (padStart k n). isDigit c"
    using decimal_digits [of n] by (auto simp: padStart_def isDigit_def)
  then show ?thesis using len
    by (auto simp: list_all2_conv_all_nth shapeChar_def)
qed

lemma toISOString_shape: "validDate d \<Longrightarrow> isIso8601 (toISOString d)"
proof -
  assume v: "validDate d"
  have r4: "replicate 4 (CHR ''d'') = ''dddd''" by code_simp
  have r3: "replicate 3 (CHR ''d'') = ''ddd''" by code_simp
  have r2: "replicate 2 (CHR ''d'') = ''dd''" by code_simp
  have p4: "(10::nat) ^ 4 = 10000" and p3: "(10::nat) ^ 3 = 1000" and p2: "(10::nat) ^ 2 = 100"
    by simp_all
  have y: "list_all2 shapeChar (padStart 4 (year d)) ''dddd''"
    using padStart_shape [of 4 "year d"] v unfolding r4 p4 by (simp add: validDate_def)
  have two: "\<And>n. n < 100 \<Longrightarrow> list_all2 shapeChar (padStart 2 n) ''dd''"
    using padStart_shape [of 2] unfolding r2 p2 by simp
  have ms: "list_all2 shapeChar (padStart 3 (milliseconds d)) ''ddd''"
    using padStart_shape [of 3 "milliseconds d"] v unfolding r3 p3 by (simp add: validDate_def)
  have mo: "list_all2 shapeChar (padStart 2 (month d)) ''dd''"
    and da: "list_all2 shapeChar (padStart 2 (day d)) ''dd''"
    and ho: "list_all2 shapeChar (padStart 2 (hours d)) ''dd''"
    and mi: "list_all2 shapeChar (padStart 2 (minutes d)) ''dd''"
    and se: "list_all2 shapeChar (padStart 2 (seconds d)) ''dd''"
    using v by (auto intro!: two simp: validDate_def)
  have s1: "list_all2 shapeChar ''-'' ''-''" and s2: "list_all2 shapeChar ''T'' ''T''"
    and s3: "list_all2 shapeChar '':'' '':''" and s4: "list_all2 shapeChar ''.'' ''.''"
    and s5: "list_all2 shapeChar ''Z'' ''Z''"
    by (simp_all add: shapeChar_def)
  have t: "''dddd-dd-ddTdd:dd:dd.dddZ''
      = ''dddd'' @ ''-'' @ ''dd'' @ ''-'' @ ''dd'' @ ''T'' @ ''dd'' @ '':'' @ ''dd'' @ '':'' @ ''dd''
        @ ''.'' @ ''ddd'' @ ''Z''" by simp
  show ?thesis
    unfolding isIso8601_def toISOString_def t
    by (intro list_all2_appendI y mo da ho mi se ms s1 s2 s3 s4 s5)
qed

section \<open>Facts about the delete flow\<close>

lemma keeps_deleteTable [simp]: "keeps w (snd (deleteTable t w))"
  by (simp add: deleteTable_def keeps_def logCall_def split: option.splits)

lemma keeps_deleteField [simp]: "keeps w (snd (deleteField t f w))"
  by (simp add: deleteField_def keeps_def logCall_def split: option.splits)

lemma keeps_deleteTables: "keeps (snd ew) (snd (deleteTables ids ew))"
proof (induction ids arbitrary: ew)
  case Nil
  show ?case by simp
next
  case (Cons t ids)
  obtain errors w where ew: "ew = (errors, w)" by (cases ew)
  obtain r w1 where d: "deleteTable t w = (r, w1)" by (cases "deleteTable t w")
  have k: "keeps w w1" using keeps_deleteTable [of w t] d by simp
  have "keeps w1 (snd (deleteTables ids (errors @ [TableDeleteFailed t], w1)))"
    "keeps w1 (snd (deleteTables ids (errors, w1)))"
    using Cons.IH [of "(errors @ [TableDeleteFailed t], w1)"] Cons.IH [of "(errors, w1)"] by simp_all
  then show ?case using k by (cases r) (auto simp: ew d intro: keeps_trans)
qed

lemma keeps_deleteFields: "keeps (snd ew) (snd (deleteFields t fs ew))"
proof (induction fs arbitrary: ew)
  case Nil
  show ?case by simp
next
  case (Cons f fs)
  obtain errors w where ew: "ew = (errors, w)" by (cases ew)
  obtain r w1 where d: "deleteField t f w = (r, w1)" by (cases "deleteField t f w")
  have k: "keeps w w1" using keeps_deleteField [of w t f] d by simp
  have "keeps w1 (snd (deleteFields t fs (errors @ [FieldDeleteFailed f], w1)))"
    "keeps w1 (snd (deleteFields t fs (errors, w1)))"
    using Cons.IH [of "(errors @ [FieldDeleteFailed f], w1)"] Cons.IH [of "(errors, w1)"] by simp_all
  then show ?case using k by (cases r) (auto simp: ew d intro: keeps_trans)
qed

lemma keeps_deleteNonIndexFields: "keeps (snd ew) (snd (deleteNonIndexFields t fs ew))"
proof (induction fs arbitrary: ew)
  case Nil
  show ?case by simp
next
  case (Cons f fs)
  obtain errors w where ew: "ew = (errors, w)" by (cases ew)
  obtain r w1 where d: "deleteField t (fieldId f) w = (r, w1)"
    by (cases "deleteField t (fieldId f) w")
  have k: "keeps w w1" using keeps_deleteField [of w t "fieldId f"] d by simp
  have "keeps w1 (snd (deleteNonIndexFields t fs
            (errors @ [FieldDeleteFailed (orElse (fieldName f) (fieldId f))], w1)))"
    "keeps w1 (snd (deleteNonIndexFields t fs (errors, w1)))"
    using Cons.IH [of "(errors @ [FieldDeleteFailed (orElse (fieldName f) (fieldId f))], w1)"]
      Cons.IH [of "(errors, w1)"] by simp_all
  then show ?case using k by (cases r) (auto simp: ew d intro: keeps_trans)
qed

lemma keeps_deleteFieldsOfEntry: "keeps (snd ew) (snd (deleteFieldsOfEntry selT plan entry ew))"
proof -
  obtain tid fieldMap where e: "entry = (tid, fieldMap)" by (cases entry)
  obtain errors w where ew: "ew = (errors, w)" by (cases ew)
  obtain r1 w1 where g: "getTableById tid w = (r1, w1)" by (cases "getTableById tid w")
  have k1: "keeps w w1" using keeps_getTableById [of w tid] g by simp
  show ?thesis
  proof (cases r1)
    case (Inl err)
    then show ?thesis using g k1 by (simp add: deleteFieldsOfEntry_def e ew Let_def)
  next
    case (Inr h)
    obtain r2 w2 where f: "getFieldMetaList h w1 = (r2, w2)" by (cases "getFieldMetaList h w1")
    have k2: "keeps w w2" using keeps_getFieldMetaList [of w1 h] f k1 keeps_trans by fastforce
    have k3: "\<And>fs. keeps w (snd (deleteFields h fs (errors, w2)))"
      using keeps_deleteFields [of "(errors, w2)" h] k2 keeps_trans by fastforce
    have k4: "\<And>t. keeps w (showToast t w2)"
      using k2 keeps_showToast keeps_trans by blast
    show ?thesis using g k1 k2 k3 k4 f Inr
      by (cases r2) (simp_all add: deleteFieldsOfEntry_def e ew Let_def)
  qed
qed

lemma keeps_deleteSelectedFields:
  "keeps (snd ew) (snd (deleteSelectedFields selT plan entries ew))"
proof (induction entries arbitrary: ew)
  case Nil
  show ?case by simp
next
  case (Cons entry entries)
  show ?case
    using keeps_deleteFieldsOfEntry [of ew selT plan entry]
      Cons.IH [of "deleteFieldsOfEntry selT plan entry ew"] keeps_trans by fastforce
qed

lemma keeps_clearLastTable: "keeps (snd ew) (snd (clearLastTable selT plan ew))"
proof (cases "lastTableId plan")
  case None
  then show ?thesis by (simp add: clearLastTable_def)
next
  case (Some lastId)
  obtain r1 w1 where g: "getTableById lastId (snd ew) = (r1, w1)"
    by (cases "getTableById lastId (snd ew)")
  have k1: "keeps (snd ew) w1" using keeps_getTableById [of "snd ew" lastId] g by simp
  show ?thesis
  proof (cases r1)
    case (Inl err)
    then show ?thesis using Some g k1 by (simp add: clearLastTable_def)
  next
    case (Inr h)
    obtain r2 w2 where f: "getFieldMetaList h w1 = (r2, w2)" by (cases "getFieldMetaList h w1")
    have k2: "keeps (snd ew) w2"
      using keeps_getFieldMetaList [of w1 h] f k1 keeps_trans by fastforce
    have k3: "\<And>fs. keeps (snd ew) (snd (deleteNonIndexFields h fs (fst ew, w2)))"
      using keeps_deleteNonIndexFields [of "(fst ew, w2)" h] k2 keeps_trans by fastforce
    have k4: "\<And>t. keeps (snd ew) (showToast t w2)"
      using k2 keeps_showToast keeps_trans by blast
    show ?thesis using Some g k1 k2 k3 k4 f Inr
      by (cases r2) (simp_all add: clearLastTable_def Let_def)
  qed
qed

lemma keeps_refreshTables: "keeps w (refreshTables w)"
proof -
  let ?w0 = "w\<lparr>loading := True, loadError := False\<rparr>"
  obtain r1 w1 where g: "getTableMetaList ?w0 = (r1, w1)" by (cases "getTableMetaList ?w0")
  have k1: "keeps w w1" using keeps_getTableMetaList [of ?w0] g by (simp add: keeps_def)
  show ?thesis
  proof (cases r1)
    case (Inl err)
    then show ?thesis using g k1
      by (simp add: refreshTables_def refreshFailed_def keeps_def showToast_def)
  next
    case (Inr ms)
    obtain r2 w2 where l: "loadBundles ms w1 = (r2, w2)" by (cases "loadBundles ms w1")
    have "keeps w1 w2" using loadBundles_reads [of w1 ms] l by simp
    then have "keeps w w2" using k1 keeps_trans by blast
    then show ?thesis using g Inr l
      by (cases r2) (simp_all add: refreshTables_def refreshFailed_def keeps_def showToast_def)
  qed
qed

lemma keeps_performDeletion: "keeps w (snd (performDeletion w))"
proof (cases "faulty w GetTableMetaList")
  case True
  then show ?thesis by (simp add: performDeletion_raises)
next
  case False
  let ?plan = "planDeletion (map meta (hostTables w)) (selectedTables w)"
  let ?w1 = "announceRetained ?plan (logCall GetTableMetaList w)"
  let ?e1 = "deleteTables (tableIdsToDelete ?plan) ([], ?w1)"
  let ?e2 = "deleteSelectedFields (selectedTables w) ?plan (selectedFields w) ?e1"
  let ?e3 = "clearLastTable (selectedTables w) ?plan ?e2"
  have a: "keeps w ?w1"
    by (simp add: announceRetained_def keeps_def logCall_def showToast_def split: option.splits)
  have b: "keeps ?w1 (snd ?e1)" using keeps_deleteTables [of "([], ?w1)"] by simp
  have c: "keeps (snd ?e1) (snd ?e2)" by (rule keeps_deleteSelectedFields)
  have d: "keeps (snd ?e2) (snd ?e3)" by (rule keeps_clearLastTable)
  have e: "keeps w (snd ?e3)" using a b c d keeps_trans by blast
  let ?w4 = "(showToast (if length (fst ?e3) > 0 then Warning (DeletionPartlyFailed (fst ?e3))
                    else Success DeletionDone) (snd ?e3))
          \<lparr>selectedTables := [], selectedFields := []\<rparr>"
  have f: "keeps w ?w4" using e by (simp add: keeps_def showToast_def)
  have "keeps w (refreshTables ?w4)" using f keeps_refreshTables [of ?w4] keeps_trans by blast
  then show ?thesis
    by (simp add: performDeletion_runs [OF False] finishDeletion_def executePlan_def)
qed

lemma calls_setSnapshot [simp]: "calls (setSnapshot s w) = calls w"
  by (simp add: setSnapshot_def syncBridgeSnapshot_def persistSnapshot_def split: option.splits)

lemma calls_captureSnapshot:
  "\<exists>new. calls (snd (captureSnapshot lbl now w)) = calls w @ new
      \<and> tableDeletes new = [] \<and> fieldDeletes new = []"
proof -
  let ?w0 = "w\<lparr>snapshotBusy := True\<rparr>"
  obtain r1 w1 where g: "getTableMetaList ?w0 = (r1, w1)" by (cases "getTableMetaList ?w0")
  have c1: "calls w1 = calls w @ [GetTableMetaList]"
    using calls_getTableMetaList [of ?w0] g by simp
  show ?thesis
  proof (cases r1)
    case (Inl err)
    then show ?thesis using g c1 by (simp add: captureSnapshot_def captureFailed_def)
  next
    case (Inr ms)
    obtain r2 w2 where l: "loadBundles ms w1 = (r2, w2)" by (cases "loadBundles ms w1")
    obtain n where n: "calls w2 = calls w1 @ n" "tableDeletes n = []" "fieldDeletes n = []"
      using calls_loadBundles [of ms w1] l by auto
    show ?thesis using g c1 Inr l n
      by (cases r2) (simp_all add: captureSnapshot_def captureFailed_def)
  qed
qed

lemma enumerationRaises_busy [simp]:
  "enumerationRaises (w\<lparr>deleteBusy := b\<rparr>) = enumerationRaises w"
  by (simp add: enumerationRaises_def)

lemma completeSnapshot_busy [simp]:
  "completeSnapshot lbl now (w\<lparr>deleteBusy := b\<rparr>) = completeSnapshot lbl now w"
  by (simp add: completeSnapshot_def)

section \<open>Facts about the table that is kept\<close>

text \<open>Deleting other tables, and fields of other tables, leaves a table as it is.\<close>

lemma findTable_filter_other:
  "t \<noteq> tid \<Longrightarrow> findTable t (filter (\<lambda>x. metaId (meta x) \<noteq> tid) ts) = findTable t ts"
  by (induction ts) (auto simp: findTable_def)

lemma findTable_dropField_other:
  "t \<noteq> tid \<Longrightarrow> findTable t (map (dropField tid fid) ts) = findTable t ts"
  by (induction ts) (auto simp: findTable_def dropField_def)

lemma findTable_deleteTable:
  "t \<noteq> tid \<Longrightarrow> findTable t (hostTables (snd (deleteTable tid w))) = findTable t (hostTables w)"
  by (simp add: deleteTable_def findTable_filter_other split: option.splits)

lemma findTable_deleteField:
  "t \<noteq> tid \<Longrightarrow> findTable t (hostTables (snd (deleteField tid fid w))) = findTable t (hostTables w)"
  by (simp add: deleteField_def findTable_dropField_other split: option.splits)

lemma findTable_deleteTables:
  "t \<notin> set ids \<Longrightarrow>
     findTable t (hostTables (snd (deleteTables ids ew))) = findTable t (hostTables (snd ew))"
proof (induction ids arbitrary: ew)
  case Nil
  show ?case by simp
next
  case (Cons tid ids)
  obtain errors w where ew: "ew = (errors, w)" by (cases ew)
  obtain r w1 where d: "deleteTable tid w = (r, w1)" by (cases "deleteTable tid w")
  have t: "t \<noteq> tid" "t \<notin> set ids" using Cons.prems by auto
  have k: "findTable t (hostTables w1) = findTable t (hostTables w)"
    using findTable_deleteTable [OF t(1), of w] d by simp
  show ?case
    using k Cons.IH [OF t(2), of "(errors @ [TableDeleteFailed tid], w1)"]
      Cons.IH [OF t(2), of "(errors, w1)"]
    by (cases r) (simp_all add: ew d)
qed

lemma findTable_deleteFields:
  "t \<noteq> tid \<Longrightarrow>
     findTable t (hostTables (snd (deleteFields tid fs ew))) = findTable t (hostTables (snd ew))"
proof (induction fs arbitrary: ew)
  case Nil
  show ?case by simp
next
  case (Cons f fs)
  obtain errors w where ew: "ew = (errors, w)" by (cases ew)
  obtain r w1 where d: "deleteField tid f w = (r, w1)" by (cases "deleteField tid f w")
  have k: "findTable t (hostTables w1) = findTable t (hostTables w)"
    using findTable_deleteField [OF Cons.prems, of f w] d by simp
  show ?case
    using k Cons.IH [OF Cons.prems, of "(errors @ [FieldDeleteFailed f], w1)"]
      Cons.IH [OF Cons.prems, of "(errors, w1)"]
    by (cases r) (simp_all add: ew d)
qed

lemma findTable_deleteFieldsOfEntry:
  assumes "isChecked selT t" and "lastTableId plan = Some t"
  shows "findTable t (hostTables (snd (deleteFieldsOfEntry selT plan entry ew)))
       = findTable t (hostTables (snd ew))"
proof -
  obtain tid fieldMap where e: "entry = (tid, fieldMap)" by (cases entry)
  obtain errors w where ew: "ew = (errors, w)" by (cases ew)
  show ?thesis
  proof (cases "tid = t")
    case True
    then show ?thesis using assms by (simp add: deleteFieldsOfEntry_def e ew)
  next
    case ne: False
    then have ne': "t \<noteq> tid" by simp
    obtain r1 w1 where g: "getTableById tid w = (r1, w1)" by (cases "getTableById tid w")
    have h1: "hostTables w1 = hostTables w" using hostTables_getTableById [of tid w] g by simp
    show ?thesis
    proof (cases r1)
      case (Inl err)
      then show ?thesis using g h1 by (simp add: deleteFieldsOfEntry_def e ew Let_def)
    next
      case (Inr h)
      then have h: "h = tid" using g getTableById_handle by blast
      obtain r2 w2 where f: "getFieldMetaList tid w1 = (r2, w2)"
        by (cases "getFieldMetaList tid w1")
      have h2: "hostTables w2 = hostTables w"
        using hostTables_getFieldMetaList [of tid w1] f h1 by simp
      show ?thesis
      proof (cases r2)
        case (Inl err)
        then show ?thesis using g Inr h f h2 by (simp add: deleteFieldsOfEntry_def e ew Let_def)
      next
        case r2: (Inr fl)
        have "findTable t (hostTables (snd (deleteFields tid fs (errors, w2))))
            = findTable t (hostTables w)" for fs
          using findTable_deleteFields [OF ne', of fs "(errors, w2)"] h2 by simp
        then show ?thesis using g Inr h f h2 r2
          by (simp add: deleteFieldsOfEntry_def e ew Let_def)
      qed
    qed
  qed
qed

lemma findTable_deleteSelectedFields:
  assumes "isChecked selT t" and "lastTableId plan = Some t"
  shows "findTable t (hostTables (snd (deleteSelectedFields selT plan entries ew)))
       = findTable t (hostTables (snd ew))"
proof (induction entries arbitrary: ew)
  case Nil
  show ?case by simp
next
  case (Cons entry entries)
  show ?case
    using Cons.IH [of "deleteFieldsOfEntry selT plan entry ew"]
      findTable_deleteFieldsOfEntry [OF assms, of entry ew]
    by simp
qed

text \<open>Step 3 on a kept table that is checked: what it asks to delete.\<close>

lemma fieldDeletes_clearLastTable:
  assumes "lastTableId plan = Some t" and "isChecked selT t"
  shows "\<exists>new. calls (snd (clearLastTable selT plan ew)) = calls (snd ew) @ new
     \<and> tableDeletes new = []
     \<and> fieldDeletes new
         = (if t \<noteq> [] \<and> \<not> faulty (snd ew) (GetTableById t)
               \<and> findTable t (hostTables (snd ew)) \<noteq> None
               \<and> \<not> faulty (snd ew) (GetFieldMetaList t)
            then map (\<lambda>f. (t, fieldId f))
                   (filter (\<lambda>f. \<not> isPrimary f) (fieldsOfTable (hostTables (snd ew)) t))
            else [])"
proof (cases "t = []")
  case True
  then show ?thesis using assms by (simp add: clearLastTable_def)
next
  case ne: False
  obtain errors w where ew: "ew = (errors, w)" by (cases ew)
  show ?thesis
  proof (cases "\<not> faulty w (GetTableById t) \<and> findTable t (hostTables w) \<noteq> None")
    case False
    then have "getTableById t w = (Inl HostError, logCall (GetTableById t) w)
        \<or> getTableById t w = (Inl NotFound, logCall (GetTableById t) w)"
      by (auto simp: getTableById_def)
    then show ?thesis using assms ne False
      by (auto simp: clearLastTable_def ew)
  next
    case True
    let ?w1 = "logCall (GetTableById t) w"
    have g: "getTableById t w = (Inr t, ?w1)"
      using True by (auto simp: getTableById_def)
    obtain b where b: "findTable t (hostTables w) = Some b" using True by auto
    show ?thesis
    proof (cases "faulty w (GetFieldMetaList t)")
      case f: True
      then have "getFieldMetaList t ?w1 = (Inl HostError, logCall (GetFieldMetaList t) ?w1)"
        by (simp add: getFieldMetaList_def)
      then show ?thesis using assms ne True g f
        by (simp add: clearLastTable_def ew)
    next
      case nf: False
      let ?w2 = "logCall (GetFieldMetaList t) ?w1"
      have f: "getFieldMetaList t ?w1 = (Inr (fieldMetas b), ?w2)"
        using nf b by (simp add: getFieldMetaList_def)
      have ft: "fieldsOfTable (hostTables w) t = fieldMetas b"
        using b by (simp add: fieldsOfTable_def)
      show ?thesis
        using assms ne True g nf f ft
        by (simp add: clearLastTable_def ew Let_def calls_deleteNonIndexFields)
    qed
  qed
qed

text \<open>The three steps, seen from a kept table that is checked.\<close>

lemma fieldDeletes_executePlan_kept:
  assumes "lastTableId plan = Some t" and "isChecked selT t" and "t \<notin> set (tableIdsToDelete plan)"
  shows "\<exists>new. calls (snd (executePlan selT selF plan w)) = calls w @ new
     \<and> map snd (filter (\<lambda>p. fst p = t) (fieldDeletes new))
         = (if t \<noteq> [] \<and> \<not> faulty w (GetTableById t) \<and> findTable t (hostTables w) \<noteq> None
               \<and> \<not> faulty w (GetFieldMetaList t)
            then map fieldId (filter (\<lambda>f. \<not> isPrimary f) (fieldsOfTable (hostTables w) t))
            else [])"
proof -
  let ?e1 = "deleteTables (tableIdsToDelete plan) ([], w)"
  let ?e2 = "deleteSelectedFields selT plan selF ?e1"
  have c1: "calls (snd ?e1) = calls w @ map DeleteTable (tableIdsToDelete plan)"
    using calls_deleteTables [of "tableIdsToDelete plan" "([], w)"] by simp
  obtain n2 where n2: "calls (snd ?e2) = calls (snd ?e1) @ n2"
    "\<forall>t \<in> fst ` set (fieldDeletes n2). t \<in> fst ` set selF \<and> \<not> isChecked selT t"
    using calls_deleteSelectedFields [of selT plan selF ?e1] by blast
  have f2: "filter (\<lambda>p. fst p = t) (fieldDeletes n2) = []"
    using n2(2) assms(2) by (auto simp: filter_empty_conv)
  have k1: "keeps w (snd ?e1)" using keeps_deleteTables [of "([], w)"] by simp
  have k2: "keeps (snd ?e1) (snd ?e2)" by (rule keeps_deleteSelectedFields)
  have fa: "faulty (snd ?e2) = faulty w" using k1 k2 by (simp add: keeps_def)
  have h1: "findTable t (hostTables (snd ?e1)) = findTable t (hostTables w)"
    using findTable_deleteTables [OF assms(3), of "([], w)"] by simp
  have h2: "findTable t (hostTables (snd ?e2)) = findTable t (hostTables w)"
    using findTable_deleteSelectedFields [OF assms(2,1), of selF ?e1] h1 by simp
  have ft: "fieldsOfTable (hostTables (snd ?e2)) t = fieldsOfTable (hostTables w) t"
    using h2 by (simp add: fieldsOfTable_def)
  obtain n3 where n3: "calls (snd (clearLastTable selT plan ?e2)) = calls (snd ?e2) @ n3"
    "fieldDeletes n3
         = (if t \<noteq> [] \<and> \<not> faulty w (GetTableById t) \<and> findTable t (hostTables w) \<noteq> None
               \<and> \<not> faulty w (GetFieldMetaList t)
            then map (\<lambda>f. (t, fieldId f))
                   (filter (\<lambda>f. \<not> isPrimary f) (fieldsOfTable (hostTables w) t))
            else [])"
    using fieldDeletes_clearLastTable [OF assms(1,2), of ?e2] unfolding fa h2 ft by blast
  have f3: "map snd (filter (\<lambda>p. fst p = t) (fieldDeletes n3))
         = (if t \<noteq> [] \<and> \<not> faulty w (GetTableById t) \<and> findTable t (hostTables w) \<noteq> None
               \<and> \<not> faulty w (GetFieldMetaList t)
            then map fieldId (filter (\<lambda>f. \<not> isPrimary f) (fieldsOfTable (hostTables w) t))
            else [])"
    unfolding n3(2) by (simp add: comp_def)
  have "calls (snd (executePlan selT selF plan w))
          = calls w @ (map DeleteTable (tableIdsToDelete plan) @ n2 @ n3)"
    using c1 n2(1) n3(1) by (simp add: executePlan_def)
  moreover have "map snd (filter (\<lambda>p. fst p = t)
        (fieldDeletes (map DeleteTable (tableIdsToDelete plan) @ n2 @ n3)))
      = (if t \<noteq> [] \<and> \<not> faulty w (GetTableById t) \<and> findTable t (hostTables w) \<noteq> None
               \<and> \<not> faulty w (GetFieldMetaList t)
            then map fieldId (filter (\<lambda>f. \<not> isPrimary f) (fieldsOfTable (hostTables w) t))
            else [])"
    using f2 f3 by simp
  ultimately show ?thesis by blast
qed

lemma planDeletion_last_listed:
  "lastTableId (planDeletion ms selT) = Some t \<Longrightarrow>
     t \<in> metaId ` set ms \<and> t \<notin> set (tableIdsToDelete (planDeletion ms selT))"
  by (auto simp: planDeletion_def Let_def last_map split: if_splits)

lemma fieldDeletes_performDeletion_kept:
  assumes "\<not> faulty w GetTableMetaList"
    and "lastTableId (planDeletion (map meta (hostTables w)) (selectedTables w)) = Some t"
    and "isChecked (selectedTables w) t"
  shows "\<exists>new. calls (snd (performDeletion w)) = calls w @ new
     \<and> map snd (filter (\<lambda>p. fst p = t) (fieldDeletes new))
         = (if t \<noteq> [] \<and> \<not> faulty w (GetTableById t) \<and> \<not> faulty w (GetFieldMetaList t)
            then map fieldId (filter (\<lambda>f. \<not> isPrimary f) (fieldsOfTable (hostTables w) t))
            else [])"
proof -
  let ?plan = "planDeletion (map meta (hostTables w)) (selectedTables w)"
  let ?w1 = "announceRetained ?plan (logCall GetTableMetaList w)"
  let ?ew = "executePlan (selectedTables w) (selectedFields w) ?plan ?w1"
  have l: "t \<in> metaId ` set (map meta (hostTables w))" "t \<notin> set (tableIdsToDelete ?plan)"
    using planDeletion_last_listed [OF assms(2)] by simp_all
  then obtain b where "b \<in> set (hostTables w)" "metaId (meta b) = t" by auto
  then have ex: "findTable t (hostTables w) \<noteq> None" using findTable_member by blast
  have w1: "faulty ?w1 = faulty w" "hostTables ?w1 = hostTables w"
    by (simp_all add: announceRetained_def split: option.splits)
  obtain n1 where n1: "calls (snd ?ew) = calls ?w1 @ n1"
    "map snd (filter (\<lambda>p. fst p = t) (fieldDeletes n1))
         = (if t \<noteq> [] \<and> \<not> faulty w (GetTableById t) \<and> \<not> faulty w (GetFieldMetaList t)
            then map fieldId (filter (\<lambda>f. \<not> isPrimary f) (fieldsOfTable (hostTables w) t))
            else [])"
    using fieldDeletes_executePlan_kept [OF assms(2,3) l(2), of "selectedFields w" ?w1] ex
    unfolding w1 by auto
  obtain n2 where n2: "calls (finishDeletion ?ew) = calls (snd ?ew) @ n2"
    "tableDeletes n2 = []" "fieldDeletes n2 = []"
    using calls_finishDeletion [of ?ew] by blast
  have "calls (snd (performDeletion w)) = calls w @ (GetTableMetaList # n1 @ n2)"
    using n1(1) n2(1) by (simp add: performDeletion_runs [OF assms(1)])
  moreover have "map snd (filter (\<lambda>p. fst p = t) (fieldDeletes (GetTableMetaList # n1 @ n2)))
         = (if t \<noteq> [] \<and> \<not> faulty w (GetTableById t) \<and> \<not> faulty w (GetFieldMetaList t)
            then map fieldId (filter (\<lambda>f. \<not> isPrimary f) (fieldsOfTable (hostTables w) t))
            else [])"
    using n1(2) n2(3) by simp
  ultimately show ?thesis by blast
qed

section \<open>Facts about the rollback\<close>

lemma fieldsAdded_Nil [simp]: "fieldsAdded [] = []"
  by (simp add: fieldsAdded_def)

lemma fieldsAdded_append [simp]: "fieldsAdded (xs @ ys) = fieldsAdded xs @ fieldsAdded ys"
  by (simp add: fieldsAdded_def)

lemma fieldsAdded_Cons [simp]:
  "fieldsAdded (c # cs) =
     (case c of AddField t ty name prop \<Rightarrow> [(ty, name, prop)] | _ \<Rightarrow> []) @ fieldsAdded cs"
  by (simp add: fieldsAdded_def)

lemma systemSkips_Nil [simp]: "systemSkips [] = []"
  by (simp add: systemSkips_def)

lemma systemSkips_append [simp]: "systemSkips (xs @ ys) = systemSkips xs @ systemSkips ys"
  by (simp add: systemSkips_def)

lemma systemSkips_Cons [simp]:
  "systemSkips (n # ns) =
     (case n of SystemFieldSkipped name ty \<Rightarrow> [(name, ty)] | _ \<Rightarrow> []) @ systemSkips ns"
  by (simp add: systemSkips_def)

lemma complexSkips_Nil [simp]: "complexSkips [] = []"
  by (simp add: complexSkips_def)

lemma complexSkips_append [simp]: "complexSkips (xs @ ys) = complexSkips xs @ complexSkips ys"
  by (simp add: complexSkips_def)

lemma complexSkips_Cons [simp]:
  "complexSkips (n # ns) =
     (case n of ComplexFieldUnsupported name ty \<Rightarrow> [(name, ty)] | _ \<Rightarrow> []) @ complexSkips ns"
  by (simp add: complexSkips_def)

lemma blocked_not_nonPortable: "blockedType f \<Longrightarrow> \<not> nonPortableType f"
  by (auto simp: blockedType_def nonPortableType_def BLOCKED_ROLLBACK_FIELD_TYPES_def
      NON_PORTABLE_ROLLBACK_FIELD_TYPES_def FieldType_CreatedTime_def FieldType_ModifiedTime_def
      FieldType_CreatedUser_def FieldType_ModifiedUser_def FieldType_AutoNumber_def
      FieldType_Lookup_def FieldType_SingleLink_def FieldType_DuplexLink_def
      FieldType_Formula_def FieldType_Barcode_def)

lemma calls_addField [simp]:
  "calls (snd (addField t ty n p w)) = calls w @ [AddField t ty n p]"
  by (simp add: addField_def Let_def split: option.splits)

lemma faulty_addField [simp]: "faulty (snd (addField t ty n p w)) = faulty w"
  by (simp add: addField_def Let_def logCall_def split: option.splits)

lemma calls_setFieldName [simp]:
  "calls (snd (setFieldName t f n w)) = calls w @ [SetFieldName t f n]"
  by (simp add: setFieldName_def split: option.splits)

lemma faulty_setFieldName [simp]: "faulty (snd (setFieldName t f n w)) = faulty w"
  by (simp add: setFieldName_def logCall_def split: option.splits)

lemma faulty_getFieldMetaList [simp]: "faulty (snd (getFieldMetaList t w)) = faulty w"
  by (simp add: getFieldMetaList_def split: option.splits)

lemma faulty_getTableById [simp]: "faulty (snd (getTableById t w)) = faulty w"
  by (simp add: getTableById_def split: option.splits)

text \<open>The loop over the fields of one table.\<close>

lemma rebuildFields_effect:
  "calls (snd (rebuildFields table tn fs ew))
       = calls (snd ew) @ map (\<lambda>f. AddField table (sfType f) (sfName f) (sfProperty f))
                            (filter portableType fs)
   \<and> systemSkips (fst (rebuildFields table tn fs ew))
       = systemSkips (fst ew) @ map (\<lambda>f. (sfName f, sfType f)) (filter blockedType fs)
   \<and> complexSkips (fst (rebuildFields table tn fs ew))
       = complexSkips (fst ew) @ map (\<lambda>f. (sfName f, sfType f)) (filter nonPortableType fs)
   \<and> faulty (snd (rebuildFields table tn fs ew)) = faulty (snd ew)"
proof (induction fs arbitrary: ew)
  case Nil
  show ?case by simp
next
  case (Cons f fs)
  obtain errors w where ew: "ew = (errors, w)" by (cases ew)
  show ?case
  proof (cases "blockedType f")
    case True
    then have np: "\<not> nonPortableType f" "\<not> portableType f"
      using blocked_not_nonPortable by (auto simp: portableType_def)
    show ?thesis
      using True np Cons.IH [of "(errors @ [SystemFieldSkipped (sfName f) (sfType f)], w)"]
      by (simp add: ew blockedType_def [symmetric])
  next
    case nb: False
    show ?thesis
    proof (cases "nonPortableType f")
      case True
      then have np: "\<not> portableType f" by (simp add: portableType_def)
      show ?thesis
        using nb True np Cons.IH [of "(errors @ [ComplexFieldUnsupported (sfName f) (sfType f)], w)"]
        by (simp add: ew blockedType_def [symmetric] nonPortableType_def [symmetric])
    next
      case False
      then have p: "portableType f" using nb by (simp add: portableType_def)
      obtain r w1 where a: "addField table (sfType f) (sfName f) (sfProperty f) w = (r, w1)"
        by (cases "addField table (sfType f) (sfName f) (sfProperty f) w")
      have c: "calls w1 = calls w @ [AddField table (sfType f) (sfName f) (sfProperty f)]"
        "faulty w1 = faulty w"
        using calls_addField [of table "sfType f" "sfName f" "sfProperty f" w]
          faulty_addField [of table "sfType f" "sfName f" "sfProperty f" w] a by simp_all
      show ?thesis
        using nb False p a c Cons.IH [of "(errors @ [FieldRebuildFailed (sfName f) tn], w1)"]
          Cons.IH [of "(errors, w1)"]
        by (cases r)
          (simp_all add: ew blockedType_def [symmetric] nonPortableType_def [symmetric])
    qed
  qed
qed

lemma renamePrimary_effect:
  "\<exists>new. calls (snd (renamePrimary table tn ew)) = calls (snd ew) @ new
     \<and> fieldsAdded new = []
     \<and> systemSkips (fst (renamePrimary table tn ew)) = systemSkips (fst ew)
     \<and> complexSkips (fst (renamePrimary table tn ew)) = complexSkips (fst ew)
     \<and> faulty (snd (renamePrimary table tn ew)) = faulty (snd ew)"
proof -
  obtain r1 w1 where g: "getFieldMetaList table (snd ew) = (r1, w1)"
    by (cases "getFieldMetaList table (snd ew)")
  have c1: "calls w1 = calls (snd ew) @ [GetFieldMetaList table]" "faulty w1 = faulty (snd ew)"
    using calls_getFieldMetaList [of table "snd ew"] faulty_getFieldMetaList [of table "snd ew"] g
    by simp_all
  show ?thesis
  proof (cases r1)
    case (Inl e)
    then show ?thesis using g c1 by (simp add: renamePrimary_def)
  next
    case (Inr fl)
    show ?thesis
    proof (cases "find isPrimary fl")
      case None
      then show ?thesis using g c1 Inr by (simp add: renamePrimary_def)
    next
      case (Some pf)
      let ?n = "safePrimaryName (fieldName pf)"
      obtain r2 w2 where s: "setFieldName table (fieldId pf) ?n w1 = (r2, w2)"
        by (cases "setFieldName table (fieldId pf) ?n w1")
      have c2: "calls w2 = calls w1 @ [SetFieldName table (fieldId pf) ?n]" "faulty w2 = faulty w1"
        using calls_setFieldName [of table "fieldId pf" ?n w1]
          faulty_setFieldName [of table "fieldId pf" ?n w1] s by simp_all
      show ?thesis using g c1 Inr Some s c2
        by (cases r2) (simp_all add: renamePrimary_def)
    qed
  qed
qed

text \<open>What leaves the names of the host's tables alone.\<close>

lemma tableNames_logCall [simp]: "tableNames (logCall c w) = tableNames w"
  by (simp add: tableNames_def)

lemma tableNames_showToast [simp]: "tableNames (showToast t w) = tableNames w"
  by (simp add: tableNames_def)

lemma tableNames_getTableById [simp]: "tableNames (snd (getTableById t w)) = tableNames w"
  by (simp add: tableNames_def)

lemma tableNames_getFieldMetaList [simp]: "tableNames (snd (getFieldMetaList t w)) = tableNames w"
  by (simp add: tableNames_def)

lemma meta_renameField [simp]: "meta (renameField t f n b) = meta b"
  by (simp add: renameField_def)

lemma meta_appendField [simp]: "meta (appendField t f b) = meta b"
  by (simp add: appendField_def)

lemma tableNames_setFieldName [simp]: "tableNames (snd (setFieldName t f n w)) = tableNames w"
  by (simp add: setFieldName_def tableNames_def logCall_def comp_def split: option.splits)

lemma tableNames_addField [simp]: "tableNames (snd (addField t ty n p w)) = tableNames w"
  by (simp add: addField_def tableNames_def logCall_def comp_def Let_def split: option.splits)

lemma tableNames_rebuildFields:
  "tableNames (snd (rebuildFields table tn fs ew)) = tableNames (snd ew)"
proof (induction fs arbitrary: ew)
  case Nil
  show ?case by simp
next
  case (Cons f fs)
  obtain errors w where ew: "ew = (errors, w)" by (cases ew)
  obtain r w1 where a: "addField table (sfType f) (sfName f) (sfProperty f) w = (r, w1)"
    by (cases "addField table (sfType f) (sfName f) (sfProperty f) w")
  have c: "tableNames w1 = tableNames w"
    using tableNames_addField [of table "sfType f" "sfName f" "sfProperty f" w] a by simp
  show ?case
    using a c Cons.IH [of "(errors @ [FieldRebuildFailed (sfName f) tn], w1)"]
      Cons.IH [of "(errors, w1)"]
      Cons.IH [of "(errors @ [SystemFieldSkipped (sfName f) (sfType f)], w)"]
      Cons.IH [of "(errors @ [ComplexFieldUnsupported (sfName f) (sfType f)], w)"]
    by (cases r) (simp_all add: ew)
qed

lemma tableNames_renamePrimary:
  "tableNames (snd (renamePrimary table tn ew)) = tableNames (snd ew)"
proof -
  obtain r1 w1 where g: "getFieldMetaList table (snd ew) = (r1, w1)"
    by (cases "getFieldMetaList table (snd ew)")
  have c1: "tableNames w1 = tableNames (snd ew)"
    using tableNames_getFieldMetaList [of table "snd ew"] g by simp
  show ?thesis
  proof (cases r1)
    case (Inl e)
    then show ?thesis using g c1 by (simp add: renamePrimary_def)
  next
    case (Inr fl)
    show ?thesis
    proof (cases "find isPrimary fl")
      case None
      then show ?thesis using g c1 Inr by (simp add: renamePrimary_def)
    next
      case (Some pf)
      let ?n = "safePrimaryName (fieldName pf)"
      obtain r2 w2 where s: "setFieldName table (fieldId pf) ?n w1 = (r2, w2)"
        by (cases "setFieldName table (fieldId pf) ?n w1")
      have c2: "tableNames w2 = tableNames w1"
        using tableNames_setFieldName [of table "fieldId pf" ?n w1] s by simp
      show ?thesis using g c1 Inr Some s c2
        by (cases r2) (simp_all add: renamePrimary_def)
    qed
  qed
qed

text \<open>A table that the host has just added can be opened.\<close>

lemma addTable_raises:
  "faulty w (AddTable name) \<Longrightarrow> addTable name w = (Inl HostError, logCall (AddTable name) w)"
  by (simp add: addTable_def)

lemma addTable_answers:
  assumes "\<not> faulty w (AddTable name)"
  shows "\<exists>tid w1. addTable name w = (Inr tid, w1)
     \<and> calls w1 = calls w @ [AddTable name]
     \<and> faulty w1 = faulty w
     \<and> tableNames w1 = tableNames w @ [Some name]
     \<and> findTable tid (hostTables w1) \<noteq> None"
  using assms
  by (auto simp: addTable_def Let_def tableNames_def logCall_def findTable_def find_None_iff)


text \<open>One round of the loop over the snapshot's tables.\<close>

lemma rollbackTable_names:
  "faulty (after (rollbackTable t st)) = faulty (after st)
   \<and> (if faulty (after st) (AddTable (rollbackNameFor (existingTableNames st) (tableName t)))
       then existingTableNames (rollbackTable t st) = existingTableNames st
          \<and> tableNames (after (rollbackTable t st)) = tableNames (after st)
       else existingTableNames (rollbackTable t st)
              = existingTableNames st @ [rollbackNameFor (existingTableNames st) (tableName t)]
          \<and> tableNames (after (rollbackTable t st))
              = tableNames (after st) @ [Some (rollbackNameFor (existingTableNames st) (tableName t))])"
proof -
  let ?n = "rollbackNameFor (existingTableNames st) (tableName t)"
  show ?thesis
  proof (cases "faulty (after st) (AddTable ?n)")
    case True
    then show ?thesis
      by (simp add: rollbackTable_def Let_def addTable_raises logCall_def tableNames_def)
  next
    case False
    obtain tid w1 where a: "addTable ?n (after st) = (Inr tid, w1)"
      "faulty w1 = faulty (after st)" "tableNames w1 = tableNames (after st) @ [Some ?n]"
      using addTable_answers [OF False] by blast
    obtain r2 w2 where g: "getTableById tid w1 = (r2, w2)" by (cases "getTableById tid w1")
    have c2: "faulty w2 = faulty w1" "tableNames w2 = tableNames w1"
      using faulty_getTableById [of tid w1] tableNames_getTableById [of tid w1] g by simp_all
    show ?thesis
    proof (cases r2)
      case (Inl e)
      then show ?thesis using False a g c2 by (simp add: rollbackTable_def Let_def)
    next
      case (Inr h)
      let ?ew = "renamePrimary h ?n (rollbackErrors st, w2)"
      have f3: "faulty (snd ?ew) = faulty w2"
        using renamePrimary_effect [of h ?n "(rollbackErrors st, w2)"] by auto
      have n3: "tableNames (snd ?ew) = tableNames w2"
        using tableNames_renamePrimary [of h ?n "(rollbackErrors st, w2)"] by simp
      have f4: "faulty (snd (rebuildFields h ?n (tableFields t) ?ew)) = faulty (snd ?ew)"
        using rebuildFields_effect [of h ?n "tableFields t" ?ew] by simp
      have n4: "tableNames (snd (rebuildFields h ?n (tableFields t) ?ew)) = tableNames (snd ?ew)"
        by (rule tableNames_rebuildFields)
      show ?thesis using False a g c2 Inr f3 n3 f4 n4
        by (simp add: rollbackTable_def Let_def)
    qed
  qed
qed

lemma tablesAdded_Nil [simp]: "tablesAdded [] = []"
  by (simp add: tablesAdded_def)

lemma tablesAdded_append [simp]: "tablesAdded (xs @ ys) = tablesAdded xs @ tablesAdded ys"
  by (simp add: tablesAdded_def)

lemma tablesAdded_Cons [simp]:
  "tablesAdded (c # cs) = (case c of AddTable name \<Rightarrow> [name] | _ \<Rightarrow> []) @ tablesAdded cs"
  by (simp add: tablesAdded_def)

lemma rebuildFailures_Nil [simp]: "rebuildFailures [] = []"
  by (simp add: rebuildFailures_def)

lemma rebuildFailures_append [simp]:
  "rebuildFailures (xs @ ys) = rebuildFailures xs @ rebuildFailures ys"
  by (simp add: rebuildFailures_def)

lemma rebuildFailures_Cons [simp]:
  "rebuildFailures (n # ns) =
     (case n of TableRebuildFailed name \<Rightarrow> [name] | _ \<Rightarrow> []) @ rebuildFailures ns"
  by (simp add: rebuildFailures_def)

lemma tablesAdded_map_AddField [simp]:
  "tablesAdded (map (\<lambda>f. AddField t (sfType f) (sfName f) (sfProperty f)) fs) = []"
  by (induction fs) simp_all




lemma rollbackTables_faulty: "faulty (after (rollbackTables ts st)) = faulty (after st)"
proof (induction ts arbitrary: st)
  case Nil
  show ?case by simp
next
  case (Cons t ts)
  show ?case using Cons.IH [of "rollbackTable t st"] rollbackTable_names [of t st] by simp
qed


text \<open>The name the loop settles on.\<close>

lemma chooseName_free: "chooseName existing base name suffix \<notin> set existing"
  by (induction existing base name suffix rule: chooseName.induct)
    (simp add: chooseName.simps)

lemma chooseName_kept: "name \<notin> set existing \<Longrightarrow> chooseName existing base name suffix = name"
  by (simp add: chooseName.simps)

lemma chooseName_numbered:
  "name \<in> set existing \<Longrightarrow>
     \<exists>n\<ge>suffix. chooseName existing base name suffix = numbered base n
        \<and> (\<forall>k. suffix \<le> k \<and> k < n \<longrightarrow> numbered base k \<in> set existing)"
proof (induction existing base name suffix rule: chooseName.induct)
  case (1 existing base name suffix)
  show ?case
  proof (cases "numbered base suffix \<in> set existing")
    case False
    have "chooseName existing base name suffix = numbered base suffix"
      using "1.prems" False by (simp add: chooseName.simps [of existing base name]
          chooseName.simps [of existing base "numbered base suffix"])
    then show ?thesis by auto
  next
    case True
    obtain n where n: "suffix + 1 \<le> n"
      "chooseName existing base (numbered base suffix) (suffix + 1) = numbered base n"
      "\<forall>k. suffix + 1 \<le> k \<and> k < n \<longrightarrow> numbered base k \<in> set existing"
      using "1.IH" [OF "1.prems" True] by blast
    have c: "chooseName existing base name suffix = numbered base n"
      using "1.prems" n(2) by (simp add: chooseName.simps [of existing base name])
    have "\<forall>k. suffix \<le> k \<and> k < n \<longrightarrow> numbered base k \<in> set existing"
    proof (intro allI impI)
      fix k assume k: "suffix \<le> k \<and> k < n"
      show "numbered base k \<in> set existing"
      proof (cases "k = suffix")
        case True
        then show ?thesis using \<open>numbered base suffix \<in> set existing\<close> by simp
      next
        case False
        then show ?thesis using k n(3) by simp
      qed
    qed
    then show ?thesis using c n(1) by (intro exI [of _ n]) simp
  qed
qed

lemma rollbackNameFor_restoredFrom: "restoredFrom (rollbackNameFor existing (tableName t)) t"
proof (cases "restoredPrefix @ tableName t \<in> set existing")
  case True
  then show ?thesis
    using chooseName_numbered [of "restoredPrefix @ tableName t" existing 1 "restoredPrefix @ tableName t"]
    by (auto simp: rollbackNameFor_def restoredFrom_def)
next
  case False
  then show ?thesis by (simp add: rollbackNameFor_def restoredFrom_def chooseName_kept)
qed

lemma rollbackTables_names:
  "\<exists>created. existingTableNames (rollbackTables ts st) = existingTableNames st @ created
     \<and> tableNames (after (rollbackTables ts st)) = tableNames (after st) @ map Some created
     \<and> distinct created
     \<and> set created \<inter> set (existingTableNames st) = {}
     \<and> ((\<forall>n. \<not> faulty (after st) (AddTable n)) \<longrightarrow> list_all2 restoredFrom created ts)"
proof (induction ts arbitrary: st)
  case Nil
  show ?case by simp
next
  case (Cons t ts)
  let ?n = "rollbackNameFor (existingTableNames st) (tableName t)"
  let ?st1 = "rollbackTable t st"
  have fresh: "?n \<notin> set (existingTableNames st)"
    by (simp add: rollbackNameFor_def chooseName_free)
  have f: "faulty (after ?st1) = faulty (after st)" using rollbackTable_names [of t st] by simp
  obtain created where c:
    "existingTableNames (rollbackTables ts ?st1) = existingTableNames ?st1 @ created"
    "tableNames (after (rollbackTables ts ?st1)) = tableNames (after ?st1) @ map Some created"
    "distinct created" "set created \<inter> set (existingTableNames ?st1) = {}"
    "(\<forall>n. \<not> faulty (after ?st1) (AddTable n)) \<longrightarrow> list_all2 restoredFrom created ts"
    using Cons.IH [of ?st1] by blast
  show ?case
  proof (cases "faulty (after st) (AddTable ?n)")
    case True
    then have s: "existingTableNames ?st1 = existingTableNames st"
      "tableNames (after ?st1) = tableNames (after st)"
      using rollbackTable_names [of t st] by simp_all
    have nf: "\<not> (\<forall>n. \<not> faulty (after st) (AddTable n))" using True by blast
    have "existingTableNames (rollbackTables (t # ts) st) = existingTableNames st @ created"
      "tableNames (after (rollbackTables (t # ts) st)) = tableNames (after st) @ map Some created"
      "set created \<inter> set (existingTableNames st) = {}"
      using c s by simp_all
    then show ?thesis using c(3) nf by blast
  next
    case False
    then have s: "existingTableNames ?st1 = existingTableNames st @ [?n]"
      "tableNames (after ?st1) = tableNames (after st) @ [Some ?n]"
      using rollbackTable_names [of t st] by simp_all
    have d: "distinct (?n # created)" using c(3,4) s(1) by auto
    have i: "set (?n # created) \<inter> set (existingTableNames st) = {}"
      using c(4) s(1) fresh by auto
    have l: "(\<forall>n. \<not> faulty (after st) (AddTable n)) \<longrightarrow> list_all2 restoredFrom (?n # created) (t # ts)"
      using c(5) f rollbackNameFor_restoredFrom [of "existingTableNames st" t] by simp
    have "existingTableNames (rollbackTables (t # ts) st) = existingTableNames st @ (?n # created)"
      "tableNames (after (rollbackTables (t # ts) st)) = tableNames (after st) @ map Some (?n # created)"
      using c(1,2) s by simp_all
    then show ?thesis using d i l by blast
  qed
qed

lemma hostTables_refreshTables: "hostTables (refreshTables w) = hostTables w"
proof -
  let ?w0 = "w\<lparr>loading := True, loadError := False\<rparr>"
  obtain r1 w1 where g: "getTableMetaList ?w0 = (r1, w1)" by (cases "getTableMetaList ?w0")
  have h1: "hostTables w1 = hostTables w"
    using g by (auto simp: getTableMetaList_def split: if_splits)
  show ?thesis
  proof (cases r1)
    case (Inl err)
    then show ?thesis using g h1 by (simp add: refreshTables_def refreshFailed_def showToast_def)
  next
    case (Inr ms)
    obtain r2 w2 where l: "loadBundles ms w1 = (r2, w2)" by (cases "loadBundles ms w1")
    have "hostTables w2 = hostTables w1" using loadBundles_reads [of w1 ms] l by simp
    then show ?thesis using g h1 Inr l
      by (cases r2) (simp_all add: refreshTables_def refreshFailed_def showToast_def)
  qed
qed

lemma handleRollback_runs:
  assumes "snapshot w = Some snap" and "\<not> faulty w GetTableMetaList"
  shows "handleRollback w =
     (Inr (),
      (refreshTables (showToast (rollbackReport (rollbackErrors (rollbackRun snap w)))
                        (after (rollbackRun snap w))))
        \<lparr>rollbackBusy := False\<rparr>)"
  using assms
  by (simp add: handleRollback_def getTableMetaList_def Let_def rollbackRun_def rollbackStart_def
      rollbackReport_def)


section \<open>The claims\<close>

text \<open>
  Claim C1 does not hold of the code.  "Select all fields" checks the index fields too,
  and step 2 filters them out for the kept table only: with tables A and B and nothing
  else selected, the run asks the host to delete the index fields a0 and b0.  The host
  refuses both, and the run ends with the two failures.
\<close>

theorem select_all_fields_deletes_index_field:
  "selectedFields allFieldsSelected =
      [(''A'', [(''a0'', True), (''a1'', True)]), (''B'', [(''b0'', True), (''b1'', True)])]
   \<and> map isPrimary (fieldMetas (hd (hostTables allFieldsSelected))) = [True, False]
   \<and> fieldDeletes (calls (snd (performDeletion allFieldsSelected))) =
      [(''A'', ''a0''), (''A'', ''a1''), (''B'', ''b0''), (''B'', ''b1'')]
   \<and> toasts (snd (performDeletion allFieldsSelected)) =
      [Success VisibleFieldsSelected,
       Warning (DeletionPartlyFailed [FieldDeleteFailed ''a0'', FieldDeleteFailed ''b0''])]"
  by code_simp

text \<open>
  Claim C2.  When every table the host lists is checked in \<open>selectedTables\<close>, the
  deletion leaves out one table and no other: the last of the host's list.  The tables
  asked to be deleted are the checked ids without that one, in selection order, every
  other listed table is among them, and the toast that names the kept table (by its
  name, or as unknown when it has none) is shown first.  The host lists at least one
  table, each id once, and answers the listing.
\<close>

theorem retain_last_when_all_selected:
  assumes "\<not> faulty w GetTableMetaList"
    and "hostTables w \<noteq> []"
    and "distinct (map (\<lambda>t. metaId (meta t)) (hostTables w))"
    and "\<forall>t \<in> set (hostTables w). isChecked (selectedTables w) (metaId (meta t))"
  shows "\<exists>new ts.
      calls (snd (performDeletion w)) = calls w @ new
    \<and> tableDeletes new =
        filter (\<lambda>i. i \<noteq> metaId (meta (last (hostTables w)))) (checkedKeys (selectedTables w))
    \<and> (\<forall>t \<in> set (hostTables w).
          (metaId (meta t) \<in> set (tableDeletes new)) = (t \<noteq> last (hostTables w)))
    \<and> toasts (snd (performDeletion w)) =
        toasts w @ Info (RetainLastTable
                           (orElse (metaName (meta (last (hostTables w)))) unknownTableName)) # ts"
proof -
  let ?metas = "map meta (hostTables w)"
  let ?plan = "planDeletion ?metas (selectedTables w)"
  let ?last = "last (hostTables w)"
  have len: "length (map metaId ?metas) \<le> length (checkedKeys (selectedTables w))"
    using all_checked_length [of "map (\<lambda>t. metaId (meta t)) (hostTables w)" "selectedTables w"]
      assms(3,4) by (simp add: comp_def)
  have plan: "?plan =
     \<lparr>lastTableId = Some (metaId (meta ?last)),
      lastTableName = Some (orElse (metaName (meta ?last)) unknownTableName),
      tableIdsToDelete = filter (\<lambda>i. i \<noteq> metaId (meta ?last)) (checkedKeys (selectedTables w))\<rparr>"
    using planDeletion_retains [of ?metas "selectedTables w"] assms(2) len
    by (simp add: last_map)
  obtain new where new: "calls (snd (performDeletion w)) = calls w @ new"
    "tableDeletes new = tableIdsToDelete ?plan"
    using calls_performDeletion [OF assms(1)] by blast
  obtain ts where ts: "toasts (snd (performDeletion w)) =
      toasts w @ Info (RetainLastTable (orElse (metaName (meta ?last)) unknownTableName)) # ts"
    using toasts_performDeletion_retained [OF assms(1)] plan by auto
  have td: "tableDeletes new =
      filter (\<lambda>i. i \<noteq> metaId (meta ?last)) (checkedKeys (selectedTables w))"
    using new(2) plan by simp
  have each: "\<forall>t \<in> set (hostTables w).
      (metaId (meta t) \<in> set (tableDeletes new)) = (t \<noteq> ?last)"
  proof
    fix t assume t: "t \<in> set (hostTables w)"
    have inj: "inj_on (\<lambda>t. metaId (meta t)) (set (hostTables w))"
      using assms(3) by (simp add: distinct_map)
    have l: "?last \<in> set (hostTables w)" using assms(2) by simp
    have "(metaId (meta t) = metaId (meta ?last)) = (t = ?last)"
      using inj t l by (auto dest: inj_onD)
    moreover have "metaId (meta t) \<in> set (checkedKeys (selectedTables w))"
      using assms(4) t isChecked_checkedKeys by blast
    ultimately show "(metaId (meta t) \<in> set (tableDeletes new)) = (t \<noteq> ?last)"
      using td by auto
  qed
  show ?thesis using new(1) td each ts by blast
qed

theorem retain_last_when_all_selected_witness:
  "tableDeletes (calls (snd (performDeletion
       (quietWorld twoTables [(''A'', True), (''B'', True)] [])))) = [''A'']
   \<and> Info (RetainLastTable ''B'') \<in> set (toasts (snd (performDeletion
       (quietWorld twoTables [(''A'', True), (''B'', True)] []))))"
proof -
  let ?w = "quietWorld twoTables [(''A'', True), (''B'', True)] []"
  have h1: "\<not> faulty ?w GetTableMetaList" by (simp add: quietWorld_def)
  have h2: "hostTables ?w \<noteq> []" by (simp add: quietWorld_def twoTables_def)
  have h3: "distinct (map (\<lambda>t. metaId (meta t)) (hostTables ?w))"
    by (simp add: quietWorld_def twoTables_def plainTable_def)
  have h4: "\<forall>t \<in> set (hostTables ?w). isChecked (selectedTables ?w) (metaId (meta t))"
    by (simp add: quietWorld_def twoTables_def plainTable_def isChecked_def)
  obtain new ts where r: "calls (snd (performDeletion ?w)) = calls ?w @ new"
    "tableDeletes new =
        filter (\<lambda>i. i \<noteq> metaId (meta (last (hostTables ?w)))) (checkedKeys (selectedTables ?w))"
    "toasts (snd (performDeletion ?w)) =
        toasts ?w @ Info (RetainLastTable
                           (orElse (metaName (meta (last (hostTables ?w)))) unknownTableName)) # ts"
    using retain_last_when_all_selected [OF h1 h2 h3 h4] by blast
  have c: "calls ?w = []" by (simp add: quietWorld_def)
  have f: "filter (\<lambda>i. i \<noteq> metaId (meta (last (hostTables ?w)))) (checkedKeys (selectedTables ?w))
      = [''A'']"
    by (simp add: quietWorld_def twoTables_def plainTable_def checkedKeys_def)
  have n: "orElse (metaName (meta (last (hostTables ?w)))) unknownTableName = ''B''"
    by (simp add: quietWorld_def twoTables_def plainTable_def orElse_def)
  show ?thesis using r c f n by simp
qed

text \<open>
  Claim C3, amended.  Let a table id be checked in \<open>selectedTables\<close> and be a key of
  \<open>selectedFields\<close>, and let the host answer the listing.  If the table is not the one
  the plan keeps, the run asks to delete the table and issues no field deletion on it.
  If it is the kept table, the run does not ask to delete it, and its entry of
  \<open>selectedFields\<close> is passed over; the field deletions issued on it are those of step 3:
  one for every field the host lists for the table that is not the index field, checked
  or not, in the host's order, when the host opens the table and lists its fields, and
  none when the host refuses either call (or the id is the empty string).
\<close>

theorem table_deletion_subsumes_fields:
  assumes "\<not> faulty w GetTableMetaList"
    and "isChecked (selectedTables w) t"
    and "t \<in> fst ` set (selectedFields w)"
  shows "\<exists>new. calls (snd (performDeletion w)) = calls w @ new
     \<and> (lastTableId (planDeletion (map meta (hostTables w)) (selectedTables w)) \<noteq> Some t
           \<longrightarrow> DeleteTable t \<in> set new \<and> (\<forall>f. DeleteField t f \<notin> set new))
     \<and> (lastTableId (planDeletion (map meta (hostTables w)) (selectedTables w)) = Some t
           \<longrightarrow> DeleteTable t \<notin> set new
             \<and> map snd (filter (\<lambda>p. fst p = t) (fieldDeletes new))
                 = (if t \<noteq> [] \<and> \<not> faulty w (GetTableById t)
                       \<and> \<not> faulty w (GetFieldMetaList t)
                    then map fieldId (filter (\<lambda>f. \<not> isPrimary f)
                                        (fieldsOfTable (hostTables w) t))
                    else []))"
proof -
  let ?plan = "planDeletion (map meta (hostTables w)) (selectedTables w)"
  obtain new where new: "calls (snd (performDeletion w)) = calls w @ new"
    "tableDeletes new = tableIdsToDelete ?plan"
    "\<forall>t \<in> fst ` set (fieldDeletes new).
           (t \<in> fst ` set (selectedFields w) \<and> \<not> isChecked (selectedTables w) t)
           \<or> lastTableId ?plan = Some t"
    using calls_performDeletion [OF assms(1)] by blast
  have keys: "t \<in> set (checkedKeys (selectedTables w))"
    using assms(2) by (rule isChecked_checkedKeys)
  have none: "lastTableId ?plan = None \<Longrightarrow> tableIdsToDelete ?plan = checkedKeys (selectedTables w)"
    by (auto simp: planDeletion_def Let_def split: if_splits)
  have some: "\<And>l. lastTableId ?plan = Some l \<Longrightarrow>
      tableIdsToDelete ?plan = filter (\<lambda>i. i \<noteq> l) (checkedKeys (selectedTables w))"
    by (auto simp: planDeletion_def Let_def split: if_splits)
  have p1: "lastTableId ?plan \<noteq> Some t \<longrightarrow> DeleteTable t \<in> set new \<and> (\<forall>f. DeleteField t f \<notin> set new)"
  proof
    assume nl: "lastTableId ?plan \<noteq> Some t"
    have "t \<in> set (tableIdsToDelete ?plan)"
    proof (cases "lastTableId ?plan")
      case None
      then show ?thesis using none keys by simp
    next
      case (Some l)
      then show ?thesis using some [OF Some] keys nl by simp
    qed
    then have dt: "DeleteTable t \<in> set new" using new(2) by (simp add: DeleteTable_in_calls)
    have "\<forall>f. (t, f) \<notin> set (fieldDeletes new)"
    proof
      fix f
      show "(t, f) \<notin> set (fieldDeletes new)"
      proof
        assume "(t, f) \<in> set (fieldDeletes new)"
        then have "t \<in> fst ` set (fieldDeletes new)" by force
        then show False using new(3) assms(2) nl by blast
      qed
    qed
    then show "DeleteTable t \<in> set new \<and> (\<forall>f. DeleteField t f \<notin> set new)"
      using dt by (simp add: DeleteField_in_calls)
  qed
  have p2: "lastTableId ?plan = Some t \<longrightarrow> DeleteTable t \<notin> set new
      \<and> map snd (filter (\<lambda>p. fst p = t) (fieldDeletes new))
          = (if t \<noteq> [] \<and> \<not> faulty w (GetTableById t) \<and> \<not> faulty w (GetFieldMetaList t)
             then map fieldId (filter (\<lambda>f. \<not> isPrimary f) (fieldsOfTable (hostTables w) t))
             else [])"
  proof
    assume l: "lastTableId ?plan = Some t"
    have a: "DeleteTable t \<notin> set new"
      using some [OF l] new(2) by (simp add: DeleteTable_in_calls)
    obtain new' where n': "calls (snd (performDeletion w)) = calls w @ new'"
      "map snd (filter (\<lambda>p. fst p = t) (fieldDeletes new'))
          = (if t \<noteq> [] \<and> \<not> faulty w (GetTableById t) \<and> \<not> faulty w (GetFieldMetaList t)
             then map fieldId (filter (\<lambda>f. \<not> isPrimary f) (fieldsOfTable (hostTables w) t))
             else [])"
      using fieldDeletes_performDeletion_kept [OF assms(1) l assms(2)] by blast
    have "new' = new" using n'(1) new(1) by simp
    then show "DeleteTable t \<notin> set new
      \<and> map snd (filter (\<lambda>p. fst p = t) (fieldDeletes new))
          = (if t \<noteq> [] \<and> \<not> faulty w (GetTableById t) \<and> \<not> faulty w (GetFieldMetaList t)
             then map fieldId (filter (\<lambda>f. \<not> isPrimary f) (fieldsOfTable (hostTables w) t))
             else [])"
      using a n'(2) by simp
  qed
  show ?thesis using new(1) p1 p2 by blast
qed

theorem table_deletion_subsumes_fields_witness:
  "DeleteTable ''A'' \<in> set (calls (snd (performDeletion
      (quietWorld twoTables [(''A'', True)] [(''A'', [(''a1'', True)])]))))
   \<and> (\<forall>f. DeleteField ''A'' f \<notin> set (calls (snd (performDeletion
      (quietWorld twoTables [(''A'', True)] [(''A'', [(''a1'', True)])])))))
   \<and> DeleteTable ''B'' \<notin> set (calls (snd (performDeletion keptWithExtras)))
   \<and> map snd (filter (\<lambda>p. fst p = ''B'')
        (fieldDeletes (calls (snd (performDeletion keptWithExtras)))))
       = [''b1'', ''b2'']"
proof -
  let ?w = "quietWorld twoTables [(''A'', True)] [(''A'', [(''a1'', True)])]"
  have h1: "\<not> faulty ?w GetTableMetaList" by (simp add: quietWorld_def)
  have h2: "isChecked (selectedTables ?w) ''A''" by (simp add: quietWorld_def isChecked_def)
  have h3: "''A'' \<in> fst ` set (selectedFields ?w)" by (simp add: quietWorld_def)
  have h4: "lastTableId (planDeletion (map meta (hostTables ?w)) (selectedTables ?w)) \<noteq> Some ''A''"
    by (simp add: quietWorld_def twoTables_def planDeletion_def checkedKeys_def)
  have c: "calls ?w = []" by (simp add: quietWorld_def)
  have a: "DeleteTable ''A'' \<in> set (calls (snd (performDeletion ?w)))
     \<and> (\<forall>f. DeleteField ''A'' f \<notin> set (calls (snd (performDeletion ?w))))"
    using table_deletion_subsumes_fields [OF h1 h2 h3] h4 c by auto
  have k1: "\<not> faulty keptWithExtras GetTableMetaList"
    by (simp add: keptWithExtras_def quietWorld_def)
  have k2: "isChecked (selectedTables keptWithExtras) ''B''"
    by (simp add: keptWithExtras_def quietWorld_def isChecked_def)
  have k3: "''B'' \<in> fst ` set (selectedFields keptWithExtras)"
    by (simp add: keptWithExtras_def quietWorld_def)
  have k4: "lastTableId (planDeletion (map meta (hostTables keptWithExtras))
       (selectedTables keptWithExtras)) = Some ''B''"
    by (simp add: keptWithExtras_def quietWorld_def plainTable_def planDeletion_def checkedKeys_def)
  have k5: "\<not> faulty keptWithExtras (GetTableById ''B'')"
    "\<not> faulty keptWithExtras (GetFieldMetaList ''B'')"
    by (simp_all add: keptWithExtras_def quietWorld_def)
  have k6: "map fieldId (filter (\<lambda>f. \<not> isPrimary f)
        (fieldsOfTable (hostTables keptWithExtras) ''B'')) = [''b1'', ''b2'']"
    by (simp add: keptWithExtras_def quietWorld_def plainTable_def plainField_def
        fieldsOfTable_def findTable_def)
  have kc: "calls keptWithExtras = []" by (simp add: keptWithExtras_def quietWorld_def)
  have b: "DeleteTable ''B'' \<notin> set (calls (snd (performDeletion keptWithExtras)))
     \<and> map snd (filter (\<lambda>p. fst p = ''B'')
          (fieldDeletes (calls (snd (performDeletion keptWithExtras))))) = [''b1'', ''b2'']"
    using table_deletion_subsumes_fields [OF k1 k2 k3] k4 k5 k6 kc by auto
  show ?thesis using a b by simp
qed

text \<open>
  The claim as stated fails on the kept table: one table A, checked, with its field a1
  checked too.  A is not deleted, and a1 is deleted by a field deletion.
\<close>

theorem retained_table_fields_counterexample:
  "isChecked (selectedTables tableAndFieldSelected) ''A''
   \<and> ''A'' \<in> fst ` set (selectedFields tableAndFieldSelected)
   \<and> DeleteTable ''A'' \<notin> set (calls (snd (performDeletion tableAndFieldSelected)))
   \<and> DeleteField ''A'' ''a1'' \<in> set (calls (snd (performDeletion tableAndFieldSelected)))"
  by code_simp

text \<open>
  Claim C4.  With nothing selected \<open>handleDelete\<close> issues no call.  Otherwise the calls
  of the whole flow are those of the snapshot capture, none of which deletes anything,
  followed by those of the deletion.  When the capture failed and the user did not
  confirm, nothing follows the capture.  When the capture succeeded, the snapshot held
  at the end is the complete snapshot of the workspace as it was before the deletion.
\<close>

theorem capture_before_deletion:
  "(totalSelectedTargets w = 0 \<longrightarrow> calls (snd (handleDelete confirmed now w)) = calls w)
   \<and> (0 < totalSelectedTargets w \<longrightarrow>
        (\<exists>pre post.
            calls (snd (captureSnapshot autoSnapshotLabel now (w\<lparr>deleteBusy := True\<rparr>)))
              = calls w @ pre
          \<and> tableDeletes pre = [] \<and> fieldDeletes pre = []
          \<and> calls (snd (handleDelete confirmed now w)) = calls w @ pre @ post
          \<and> (\<not> fst (captureSnapshot autoSnapshotLabel now (w\<lparr>deleteBusy := True\<rparr>)) \<and> \<not> confirmed
                \<longrightarrow> post = [])
          \<and> (fst (captureSnapshot autoSnapshotLabel now (w\<lparr>deleteBusy := True\<rparr>))
                \<longrightarrow> snapshot (snd (handleDelete confirmed now w))
                      = Some (completeSnapshot autoSnapshotLabel now w))))"
proof -
  let ?w0 = "w\<lparr>deleteBusy := True\<rparr>"
  let ?cap = "captureSnapshot autoSnapshotLabel now ?w0"
  have z: "totalSelectedTargets w = 0 \<longrightarrow> calls (snd (handleDelete confirmed now w)) = calls w"
    by (simp add: handleDelete_def)
  have p: "0 < totalSelectedTargets w \<longrightarrow>
        (\<exists>pre post.
            calls (snd ?cap) = calls w @ pre
          \<and> tableDeletes pre = [] \<and> fieldDeletes pre = []
          \<and> calls (snd (handleDelete confirmed now w)) = calls w @ pre @ post
          \<and> (\<not> fst ?cap \<and> \<not> confirmed \<longrightarrow> post = [])
          \<and> (fst ?cap \<longrightarrow> snapshot (snd (handleDelete confirmed now w))
                      = Some (completeSnapshot autoSnapshotLabel now w)))"
  proof
    assume pos: "0 < totalSelectedTargets w"
    obtain ok w1 where cap: "?cap = (ok, w1)" by (cases ?cap)
    obtain pre where pre: "calls w1 = calls w @ pre" "tableDeletes pre = []" "fieldDeletes pre = []"
      using calls_captureSnapshot [of autoSnapshotLabel now ?w0] cap by auto
    have ok: "ok = (\<not> enumerationRaises w)"
      using captureSnapshot_fails(1) [of ?w0 autoSnapshotLabel now]
        captureSnapshot_succeeds(1) [of ?w0 autoSnapshotLabel now] cap
      by (cases "enumerationRaises w") simp_all
    have del: "\<And>v :: world. calls v = calls w1 \<Longrightarrow> snapshot v = snapshot w1 \<Longrightarrow>
        \<exists>post. calls (snd (deleteThenIdle v)) = calls w @ pre @ post
          \<and> snapshot (snd (deleteThenIdle v)) = snapshot w1"
    proof -
      fix v :: world assume v: "calls v = calls w1" "snapshot v = snapshot w1"
      obtain r v1 where d: "performDeletion v = (r, v1)" by (cases "performDeletion v")
      have "\<exists>post. calls v1 = calls v @ post"
      proof (cases "faulty v GetTableMetaList")
        case True
        then show ?thesis using d by (auto simp: performDeletion_raises)
      next
        case False
        then show ?thesis using calls_performDeletion [OF False] d by auto
      qed
      then obtain post where post: "calls v1 = calls v @ post" by blast
      have "snapshot v1 = snapshot v" using keeps_performDeletion [of v] d by (simp add: keeps_def)
      then show "\<exists>post. calls (snd (deleteThenIdle v)) = calls w @ pre @ post
          \<and> snapshot (snd (deleteThenIdle v)) = snapshot w1"
        using post v pre(1) d by (simp add: deleteThenIdle_def)
    qed
    show "\<exists>pre post.
            calls (snd ?cap) = calls w @ pre
          \<and> tableDeletes pre = [] \<and> fieldDeletes pre = []
          \<and> calls (snd (handleDelete confirmed now w)) = calls w @ pre @ post
          \<and> (\<not> fst ?cap \<and> \<not> confirmed \<longrightarrow> post = [])
          \<and> (fst ?cap \<longrightarrow> snapshot (snd (handleDelete confirmed now w))
                      = Some (completeSnapshot autoSnapshotLabel now w))"
    proof (cases "enumerationRaises w")
      case True
      then have nok: "\<not> ok" using ok by simp
      show ?thesis
      proof (cases confirmed)
        case False
        have "calls (snd (handleDelete confirmed now w)) = calls w @ pre @ []"
          using pos cap nok False pre(1) by (simp add: handleDelete_def)
        then show ?thesis using cap pre nok by (metis fst_conv snd_conv)
      next
        case c: True
        obtain post where "calls (snd (deleteThenIdle (w1\<lparr>deleteBusy := False\<rparr>\<lparr>deleteBusy := True\<rparr>)))
            = calls w @ pre @ post"
          using del [of "w1\<lparr>deleteBusy := False\<rparr>\<lparr>deleteBusy := True\<rparr>"] by auto
        then have "calls (snd (handleDelete confirmed now w)) = calls w @ pre @ post"
          using pos cap nok c by (simp add: handleDelete_def)
        then show ?thesis using cap pre nok c by (metis fst_conv snd_conv)
      qed
    next
      case False
      then have isok: ok using ok by simp
      have sn: "snapshot w1 = Some (completeSnapshot autoSnapshotLabel now w)"
        using captureSnapshot_succeeds(2) [of ?w0 autoSnapshotLabel now] False cap
        by (simp add: completeSnapshot_def)
      obtain post where post: "calls (snd (deleteThenIdle w1)) = calls w @ pre @ post"
        "snapshot (snd (deleteThenIdle w1)) = snapshot w1"
        using del [of w1] by auto
      have "handleDelete confirmed now w = deleteThenIdle w1"
        using pos cap isok by (simp add: handleDelete_def)
      then show ?thesis using cap pre isok post sn by (metis fst_conv snd_conv)
    qed
  qed
  show ?thesis using z p by blast
qed

theorem capture_before_deletion_witness:
  "tableDeletes (calls (snd (handleDelete False sampleDate readFails))) = []
   \<and> fieldDeletes (calls (snd (handleDelete False sampleDate readFails))) = []
   \<and> snapshot (snd (handleDelete False sampleDate (quietWorld twoTables [(''A'', True)] [])))
       = Some (completeSnapshot autoSnapshotLabel sampleDate (quietWorld twoTables [(''A'', True)] []))"
proof -
  let ?q = "quietWorld twoTables [(''A'', True)] []"
  have t1: "0 < totalSelectedTargets readFails"
    by (simp add: totalSelectedTargets_def selectedTableCount_def readFails_def quietWorld_def)
  have t2: "0 < totalSelectedTargets ?q"
    by (simp add: totalSelectedTargets_def selectedTableCount_def quietWorld_def)
  have r: "enumerationRaises readFails"
    by (simp add: enumerationRaises_def readFails_def quietWorld_def twoTables_def plainTable_def)
  have q: "\<not> enumerationRaises ?q"
    by (simp add: enumerationRaises_def quietWorld_def twoTables_def)
  have f1: "\<not> fst (captureSnapshot autoSnapshotLabel sampleDate (readFails\<lparr>deleteBusy := True\<rparr>))"
    using captureSnapshot_fails(1) [of "readFails\<lparr>deleteBusy := True\<rparr>"] r by simp
  have f2: "fst (captureSnapshot autoSnapshotLabel sampleDate (?q\<lparr>deleteBusy := True\<rparr>))"
    using captureSnapshot_succeeds(1) [of "?q\<lparr>deleteBusy := True\<rparr>"] q by simp
  have c: "calls readFails = []" by (simp add: readFails_def quietWorld_def)
  obtain pre post where p:
    "tableDeletes pre = []" "fieldDeletes pre = []"
    "calls (snd (handleDelete False sampleDate readFails)) = calls readFails @ pre @ post"
    "post = []"
    using capture_before_deletion [of readFails False sampleDate] t1 f1 by auto
  have a: "tableDeletes (calls (snd (handleDelete False sampleDate readFails))) = []"
    "fieldDeletes (calls (snd (handleDelete False sampleDate readFails))) = []"
    using p c by simp_all
  have b: "snapshot (snd (handleDelete False sampleDate ?q))
       = Some (completeSnapshot autoSnapshotLabel sampleDate ?q)"
    using capture_before_deletion [of ?q False sampleDate] t2 f2 by auto
  show ?thesis using a b by simp
qed

text \<open>
  Claim C5.  \<open>captureSnapshot\<close> answers \<open>false\<close> exactly when a read of the enumeration
  raises (the table listing, opening a listed table, or listing its fields).  Then the
  snapshot held, the local cache and the bridge store are as before.  Otherwise one
  snapshot replaces the one held, and it is what the local cache and the bridge are
  given.  That snapshot carries the supplied label and the timestamp \<open>toISOString\<close>
  prints (of the ISO-8601 shape for a valid date).  It is complete: the table ids being
  distinct, it holds one table for every table of the host, in the host's order, with
  the host's id and name (or the stand-in for a missing name), and under each table one
  field for every field of the host's table, in order, with the host's id, name (or the
  stand-in), type code and property (a property that is a tree \<open>JSON.stringify\<close> and
  \<open>JSON.parse\<close> are exact on).
\<close>

theorem capture_is_atomic:
  "fst (captureSnapshot lbl now w) = (\<not> enumerationRaises w)
   \<and> (enumerationRaises w \<longrightarrow>
         snapshot (snd (captureSnapshot lbl now w)) = snapshot w
       \<and> window (snd (captureSnapshot lbl now w)) = window w
       \<and> bridge (snd (captureSnapshot lbl now w)) = bridge w)
   \<and> (\<not> enumerationRaises w \<longrightarrow>
         snapshot (snd (captureSnapshot lbl now w)) = Some (completeSnapshot lbl now w)
       \<and> window (snd (captureSnapshot lbl now w))
           = window (persistSnapshot (Some (completeSnapshot lbl now w)) w)
       \<and> bridge (snd (captureSnapshot lbl now w))
           = bridge (syncBridgeSnapshot (Some (completeSnapshot lbl now w)) w))
   \<and> label (completeSnapshot lbl now w) = lbl
   \<and> timestamp (completeSnapshot lbl now w) = toISOString now
   \<and> (validDate now \<longrightarrow> isIso8601 (timestamp (completeSnapshot lbl now w)))
   \<and> (distinct (map (\<lambda>t. metaId (meta t)) (hostTables w)) \<longrightarrow>
         tables (completeSnapshot lbl now w) = map snapshotTableOf (hostTables w)
       \<and> list_all2
           (\<lambda>st t. tableId st = metaId (meta t)
              \<and> tableName st = (case metaName (meta t) of None \<Rightarrow> unnamedTable | Some n \<Rightarrow> n)
              \<and> list_all2
                  (\<lambda>sf f. sfId sf = fieldId f
                     \<and> sfName sf = (case fieldName f of None \<Rightarrow> unnamedField | Some n \<Rightarrow> n)
                     \<and> sfType sf = fieldType f
                     \<and> (case fieldProperty f of
                           None \<Rightarrow> sfProperty sf = None
                         | Some p \<Rightarrow> wfJson p \<longrightarrow> sfProperty sf = Some p))
                  (tableFields st) (fieldMetas t))
           (tables (completeSnapshot lbl now w)) (hostTables w))"
proof -
  have a: "fst (captureSnapshot lbl now w) = (\<not> enumerationRaises w)"
    using captureSnapshot_fails(1) [of w lbl now] captureSnapshot_succeeds(1) [of w lbl now]
    by (cases "enumerationRaises w") simp_all
  have b: "enumerationRaises w \<longrightarrow>
         snapshot (snd (captureSnapshot lbl now w)) = snapshot w
       \<and> window (snd (captureSnapshot lbl now w)) = window w
       \<and> bridge (snd (captureSnapshot lbl now w)) = bridge w"
    using captureSnapshot_fails(2) [of w lbl now] by (simp add: keeps_def)
  have c: "\<not> enumerationRaises w \<longrightarrow>
         snapshot (snd (captureSnapshot lbl now w)) = Some (completeSnapshot lbl now w)
       \<and> window (snd (captureSnapshot lbl now w))
           = window (persistSnapshot (Some (completeSnapshot lbl now w)) w)
       \<and> bridge (snd (captureSnapshot lbl now w))
           = bridge (syncBridgeSnapshot (Some (completeSnapshot lbl now w)) w)"
    using captureSnapshot_succeeds(2,3,4) [of w lbl now] by (simp add: completeSnapshot_def)
  have d: "label (completeSnapshot lbl now w) = lbl"
    "timestamp (completeSnapshot lbl now w) = toISOString now"
    by (simp_all add: completeSnapshot_def)
  have e: "distinct (map (\<lambda>t. metaId (meta t)) (hostTables w)) \<longrightarrow>
         tables (completeSnapshot lbl now w) = map snapshotTableOf (hostTables w)"
    using reported_fields_distinct [of "hostTables w"] by (simp add: completeSnapshot_def)
  have f: "validDate now \<longrightarrow> isIso8601 (timestamp (completeSnapshot lbl now w))"
    using toISOString_shape [of now] by (simp add: completeSnapshot_def)
  have g: "distinct (map (\<lambda>t. metaId (meta t)) (hostTables w)) \<longrightarrow>
       list_all2
           (\<lambda>st t. tableId st = metaId (meta t)
              \<and> tableName st = (case metaName (meta t) of None \<Rightarrow> unnamedTable | Some n \<Rightarrow> n)
              \<and> list_all2
                  (\<lambda>sf f. sfId sf = fieldId f
                     \<and> sfName sf = (case fieldName f of None \<Rightarrow> unnamedField | Some n \<Rightarrow> n)
                     \<and> sfType sf = fieldType f
                     \<and> (case fieldProperty f of
                           None \<Rightarrow> sfProperty sf = None
                         | Some p \<Rightarrow> wfJson p \<longrightarrow> sfProperty sf = Some p))
                  (tableFields st) (fieldMetas t))
           (tables (completeSnapshot lbl now w)) (hostTables w)"
    using completeSnapshot_reflects [of w lbl now] by blast
  show ?thesis using a b c d e f g by blast
qed

theorem capture_is_atomic_witness:
  "fst (captureSnapshot ''manual'' sampleDate readFails) = False
   \<and> snapshot (snd (captureSnapshot ''manual'' sampleDate readFails)) = Some sampleSnapshot
   \<and> window (snd (captureSnapshot ''manual'' sampleDate readFails))
       = Some \<lparr>item = cachedSample, storageRaises = False\<rparr>
   \<and> fst (captureSnapshot ''manual'' sampleDate namelessField) = True
   \<and> snapshot (snd (captureSnapshot ''manual'' sampleDate namelessField))
       = Some \<lparr>label = ''manual'', timestamp = ''2024-05-01T08:30:00.007Z'',
               tables =
                 [\<lparr>tableId = ''A'', tableName = ''A'',
                   tableFields =
                     [\<lparr>sfId = ''a0'', sfName = ''a0'', sfType = 1, sfProperty = None\<rparr>,
                      \<lparr>sfId = ''a1'', sfName = unnamedField, sfType = 2,
                       sfProperty = Some (JObject [(''formatter'', JString ''0.0'')])\<rparr>]\<rparr>,
                  \<lparr>tableId = ''B'', tableName = ''B'',
                   tableFields =
                     [\<lparr>sfId = ''b0'', sfName = ''b0'', sfType = 1, sfProperty = None\<rparr>]\<rparr>]\<rparr>
   \<and> isIso8601 (timestamp (completeSnapshot ''manual'' sampleDate namelessField))"
proof -
  have r: "enumerationRaises readFails"
    by (simp add: enumerationRaises_def readFails_def quietWorld_def twoTables_def plainTable_def)
  have q: "\<not> enumerationRaises namelessField"
    by (simp add: enumerationRaises_def quietWorld_def namelessField_def)
  have s: "snapshot readFails = Some sampleSnapshot"
    "window readFails = Some \<lparr>item = cachedSample, storageRaises = False\<rparr>"
    by (simp_all add: readFails_def)
  have d: "distinct (map (\<lambda>t. metaId (meta t)) (hostTables namelessField))"
    by (simp add: quietWorld_def namelessField_def plainTable_def)
  have v: "validDate sampleDate" by (simp add: validDate_def sampleDate_def)
  have ts: "toISOString sampleDate = ''2024-05-01T08:30:00.007Z''" by code_simp
  have t: "map snapshotTableOf (hostTables namelessField)
      = [\<lparr>tableId = ''A'', tableName = ''A'',
          tableFields =
            [\<lparr>sfId = ''a0'', sfName = ''a0'', sfType = 1, sfProperty = None\<rparr>,
             \<lparr>sfId = ''a1'', sfName = unnamedField, sfType = 2,
              sfProperty = Some (JObject [(''formatter'', JString ''0.0'')])\<rparr>]\<rparr>,
         \<lparr>tableId = ''B'', tableName = ''B'',
          tableFields =
            [\<lparr>sfId = ''b0'', sfName = ''b0'', sfType = 1, sfProperty = None\<rparr>]\<rparr>]"
    by code_simp
  have x: "snapshot (snd (captureSnapshot ''manual'' sampleDate namelessField))
      = Some (completeSnapshot ''manual'' sampleDate namelessField)"
    "label (completeSnapshot ''manual'' sampleDate namelessField) = ''manual''"
    "timestamp (completeSnapshot ''manual'' sampleDate namelessField) = toISOString sampleDate"
    "tables (completeSnapshot ''manual'' sampleDate namelessField)
       = map snapshotTableOf (hostTables namelessField)"
    "isIso8601 (timestamp (completeSnapshot ''manual'' sampleDate namelessField))"
    "fst (captureSnapshot ''manual'' sampleDate namelessField) = True"
    using capture_is_atomic [of "''manual''" sampleDate namelessField] q d v by blast+
  have y: "fst (captureSnapshot ''manual'' sampleDate readFails) = False"
    "snapshot (snd (captureSnapshot ''manual'' sampleDate readFails)) = Some sampleSnapshot"
    "window (snd (captureSnapshot ''manual'' sampleDate readFails))
       = Some \<lparr>item = cachedSample, storageRaises = False\<rparr>"
    using capture_is_atomic [of "''manual''" sampleDate readFails] r s by auto
  have z: "completeSnapshot ''manual'' sampleDate namelessField
      = \<lparr>label = label (completeSnapshot ''manual'' sampleDate namelessField),
         timestamp = timestamp (completeSnapshot ''manual'' sampleDate namelessField),
         tables = tables (completeSnapshot ''manual'' sampleDate namelessField)\<rparr>"
    by simp
  show ?thesis
    using x(1,5,6) y z unfolding x(2,3,4) ts t by simp
qed




text \<open>
  Claim C7.  The name a snapshot table is rebuilt under is not among the existing
  names.  It is the prefixed original name when that is free; otherwise it is that name
  with \<open>(n)\<close> appended, for the least \<open>n\<close> from 1 on whose name is free.  Over a whole
  rollback (a snapshot held, the listing answered) the host's tables are the old ones
  followed by the created ones, whose names differ from each other and from every old
  name; when no \<open>addTable\<close> fails there is one created table per snapshot table, in
  order, each named by the prefixed original name, bare or numbered.  So two snapshot
  tables with one original name get different names that differ in the number.
\<close>

theorem rollback_names_never_collide:
  "rollbackNameFor existing name \<notin> set existing
   \<and> (restoredPrefix @ name \<notin> set existing \<longrightarrow>
        rollbackNameFor existing name = restoredPrefix @ name)
   \<and> (restoredPrefix @ name \<in> set existing \<longrightarrow>
        (\<exists>n\<ge>1. rollbackNameFor existing name = numbered (restoredPrefix @ name) n
           \<and> (\<forall>k. 1 \<le> k \<and> k < n \<longrightarrow> numbered (restoredPrefix @ name) k \<in> set existing)))
   \<and> (snapshot w = Some snap \<and> \<not> faulty w GetTableMetaList \<longrightarrow>
        (\<exists>created.
            tableNames (snd (handleRollback w)) = tableNames w @ map Some created
          \<and> distinct created
          \<and> (\<forall>c \<in> set created. Some c \<notin> set (tableNames w))
          \<and> ((\<forall>n. \<not> faulty w (AddTable n)) \<longrightarrow> list_all2 restoredFrom created (tables snap))))"
proof -
  have a: "rollbackNameFor existing name \<notin> set existing"
    by (simp add: rollbackNameFor_def chooseName_free)
  have b: "restoredPrefix @ name \<notin> set existing \<longrightarrow>
        rollbackNameFor existing name = restoredPrefix @ name"
    by (simp add: rollbackNameFor_def chooseName_kept)
  have c: "restoredPrefix @ name \<in> set existing \<longrightarrow>
        (\<exists>n\<ge>1. rollbackNameFor existing name = numbered (restoredPrefix @ name) n
           \<and> (\<forall>k. 1 \<le> k \<and> k < n \<longrightarrow> numbered (restoredPrefix @ name) k \<in> set existing))"
    using chooseName_numbered [of "restoredPrefix @ name" existing 1 "restoredPrefix @ name"]
    by (simp add: rollbackNameFor_def)
  have d: "snapshot w = Some snap \<and> \<not> faulty w GetTableMetaList \<longrightarrow>
        (\<exists>created.
            tableNames (snd (handleRollback w)) = tableNames w @ map Some created
          \<and> distinct created
          \<and> (\<forall>c \<in> set created. Some c \<notin> set (tableNames w))
          \<and> ((\<forall>n. \<not> faulty w (AddTable n)) \<longrightarrow> list_all2 restoredFrom created (tables snap)))"
  proof
    assume h: "snapshot w = Some snap \<and> \<not> faulty w GetTableMetaList"
    let ?st0 = "rollbackStart w"
    obtain created where cr:
      "tableNames (after (rollbackTables (tables snap) ?st0)) = tableNames (after ?st0) @ map Some created"
      "distinct created" "set created \<inter> set (existingTableNames ?st0) = {}"
      "(\<forall>n. \<not> faulty (after ?st0) (AddTable n)) \<longrightarrow> list_all2 restoredFrom created (tables snap)"
      using rollbackTables_names [of "tables snap" ?st0] by blast
    have t0: "tableNames (after ?st0) = tableNames w"
      by (simp add: rollbackStart_def tableNames_def logCall_def)
    have f0: "faulty (after ?st0) = faulty w" by (simp add: rollbackStart_def logCall_def)
    have "tableNames (snd (handleRollback w)) = tableNames (after (rollbackRun snap w))"
      using h by (simp add: handleRollback_runs tableNames_def hostTables_refreshTables showToast_def)
    then have n: "tableNames (snd (handleRollback w)) = tableNames w @ map Some created"
      using cr(1) t0 by (simp add: rollbackRun_def)
    have e: "\<forall>c \<in> set created. Some c \<notin> set (tableNames w)"
    proof
      fix c assume c: "c \<in> set created"
      show "Some c \<notin> set (tableNames w)"
      proof
        assume "Some c \<in> set (tableNames w)"
        then obtain t where t: "t \<in> set (hostTables w)" "metaName (meta t) = Some c"
          by (auto simp: tableNames_def)
        then have "c \<in> set (existingTableNames ?st0)"
          by (force simp: rollbackStart_def nullish_def)
        then show False using cr(3) c by blast
      qed
    qed
    show "\<exists>created.
            tableNames (snd (handleRollback w)) = tableNames w @ map Some created
          \<and> distinct created
          \<and> (\<forall>c \<in> set created. Some c \<notin> set (tableNames w))
          \<and> ((\<forall>n. \<not> faulty w (AddTable n)) \<longrightarrow> list_all2 restoredFrom created (tables snap))"
      using n cr(2) e cr(4) f0 by auto
  qed
  show ?thesis using a b c d by blast
qed

theorem rollback_names_never_collide_witness:
  "rollbackNameFor [restoredPrefix @ ''Tasks''] ''Tasks'' \<notin> set [restoredPrefix @ ''Tasks'']
   \<and> rollbackNameFor [] ''Tasks'' = restoredPrefix @ ''Tasks''
   \<and> tableNames (snd (handleRollback twinsHeld))
       = [Some ''A'', Some ''B'', Some (restoredPrefix @ ''Tasks''),
          Some (numbered (restoredPrefix @ ''Tasks'') 1)]
   \<and> (\<exists>created. tableNames (snd (handleRollback twinsHeld)) = tableNames twinsHeld @ map Some created
          \<and> distinct created \<and> list_all2 restoredFrom created (tables twinSnapshot))"
proof -
  have h: "snapshot twinsHeld = Some twinSnapshot" "\<not> faulty twinsHeld GetTableMetaList"
    "\<forall>n. \<not> faulty twinsHeld (AddTable n)"
    by (simp_all add: twinsHeld_def quietWorld_def)
  have e: "tableNames (snd (handleRollback twinsHeld))
       = [Some ''A'', Some ''B'', Some (restoredPrefix @ ''Tasks''),
          Some (numbered (restoredPrefix @ ''Tasks'') 1)]"
    by code_simp
  have n: "restoredPrefix @ ''Tasks'' \<notin> set []" by simp
  show ?thesis
    using rollback_names_never_collide [of "[restoredPrefix @ ''Tasks'']" "''Tasks''" twinsHeld twinSnapshot]
      rollback_names_never_collide [of "[]" "''Tasks''" twinsHeld twinSnapshot] h e n
    by auto
qed




text \<open>
  Claim C9.  A snapshot written by \<open>persistSnapshot\<close> is read back by
  \<open>loadPersistedSnapshot\<close> as the same snapshot: its JSON text parses to the tree it was
  printed from, and the tree reads as the snapshot, field-type codes included.  The
  snapshot is one the model is exact on (integer codes within the safe range, property
  payloads without fractional numbers or repeated keys), and the storage is there and
  does not raise.
\<close>

theorem snapshot_round_trip:
  assumes "wfSnapshot s" and "window w = Some storage" and "\<not> storageRaises storage"
  shows "JSON_parse (JSON_stringify (jsonOfSnapshot s)) = Inr (jsonOfSnapshot s)
       \<and> snapshotOfJson (jsonOfSnapshot s) = Some s
       \<and> loadPersistedSnapshot (persistSnapshot (Some s) w) = Some s"
proof -
  have p: "JSON_parse (JSON_stringify (jsonOfSnapshot s)) = Inr (jsonOfSnapshot s)"
    using assms(1) by (intro JSON_parse_stringify wfJson_jsonOfSnapshot)
  have d: "snapshotOfJson (jsonOfSnapshot s) = Some s" by (rule snapshotOfJson_jsonOfSnapshot)
  have "loadPersistedSnapshot (persistSnapshot (Some s) w) = Some s"
    using assms(2,3) p d stringify_nonempty [of "jsonOfSnapshot s"]
    by (simp add: loadPersistedSnapshot_def persistSnapshot_def)
  then show ?thesis using p d by simp
qed

theorem snapshot_round_trip_witness:
  "loadPersistedSnapshot (persistSnapshot (Some sampleSnapshot) (storageWorld None None))
     = Some sampleSnapshot
   \<and> map sfType (concat (map tableFields (tables sampleSnapshot))) = [1, 1001, 99001]"
proof -
  have w: "wfSnapshot sampleSnapshot" by (simp add: wfSnapshot_def sampleSnapshot_def wfField_def)
  have a: "window (storageWorld None None) = Some \<lparr>item = None, storageRaises = False\<rparr>"
    by (simp add: storageWorld_def quietWorld_def)
  have b: "\<not> storageRaises \<lparr>item = None, storageRaises = False\<rparr>" by simp
  have t: "map sfType (concat (map tableFields (tables sampleSnapshot))) = [1, 1001, 99001]"
    by (simp add: sampleSnapshot_def)
  show ?thesis using snapshot_round_trip [OF w a b] t by simp
qed

text \<open>
  Claim C10.  Whether the last table is kept is a comparison of two lengths: for a
  non-empty table list the plan keeps the last listed table exactly when at least as
  many ids are checked as tables are listed, and keeps nothing exactly when fewer are.
  So a stale id counts.  In \<open>staleSelection\<close> the host lists A and B, and B and the
  vanished X are checked: two ids against two tables.  B is kept, only X is asked to be
  deleted, the non-index field of B is deleted, and A and B both remain, although A was
  never selected and deleting B would have left it.
\<close>

theorem retain_decided_by_count:
  "(currentTableList \<noteq> [] \<longrightarrow>
      ((lastTableId (planDeletion currentTableList selT) = Some (metaId (last currentTableList)))
         = (length currentTableList \<le> length (checkedKeys selT)))
    \<and> ((lastTableId (planDeletion currentTableList selT) = None)
         = (length (checkedKeys selT) < length currentTableList)))
   \<and> ''X'' \<in> set (checkedKeys (selectedTables staleSelection))
   \<and> findTable ''X'' (hostTables staleSelection) = None
   \<and> findTable ''A'' (hostTables staleSelection) \<noteq> None
   \<and> \<not> isChecked (selectedTables staleSelection) ''A''
   \<and> lastTableId (planDeletion (map meta (hostTables staleSelection))
                    (selectedTables staleSelection)) = Some ''B''
   \<and> tableDeletes (calls (snd (performDeletion staleSelection))) = [''X'']
   \<and> fieldDeletes (calls (snd (performDeletion staleSelection))) = [(''B'', ''b1'')]
   \<and> map (\<lambda>t. metaId (meta t)) (hostTables (snd (performDeletion staleSelection))) = [''A'', ''B'']"
proof -
  have a: "currentTableList \<noteq> [] \<longrightarrow>
      ((lastTableId (planDeletion currentTableList selT) = Some (metaId (last currentTableList)))
         = (length currentTableList \<le> length (checkedKeys selT)))
    \<and> ((lastTableId (planDeletion currentTableList selT) = None)
         = (length (checkedKeys selT) < length currentTableList))"
    by (auto simp: planDeletion_def Let_def last_map)
  have b: "''X'' \<in> set (checkedKeys (selectedTables staleSelection))" by code_simp
  have c: "findTable ''X'' (hostTables staleSelection) = None" by code_simp
  have d: "findTable ''A'' (hostTables staleSelection) \<noteq> None" by code_simp
  have e: "\<not> isChecked (selectedTables staleSelection) ''A''" by code_simp
  have f: "lastTableId (planDeletion (map meta (hostTables staleSelection))
                    (selectedTables staleSelection)) = Some ''B''" by code_simp
  have g: "tableDeletes (calls (snd (performDeletion staleSelection))) = [''X'']" by code_simp
  have h: "fieldDeletes (calls (snd (performDeletion staleSelection))) = [(''B'', ''b1'')]"
    by code_simp
  have i: "map (\<lambda>t. metaId (meta t)) (hostTables (snd (performDeletion staleSelection)))
      = [''A'', ''B'']" by code_simp
  show ?thesis using a b c d e f g h i by blast
qed

theorem retain_decided_by_count_witness:
  "map meta twoTables \<noteq> []
   \<and> length (map meta twoTables) \<le> length (checkedKeys [(''A'', True), (''B'', True)])
   \<and> lastTableId (planDeletion (map meta twoTables) [(''A'', True), (''B'', True)]) = Some ''B''"
proof -
  have ne: "map meta twoTables \<noteq> []" by (simp add: twoTables_def)
  have le: "length (map meta twoTables) \<le> length (checkedKeys [(''A'', True), (''B'', True)])"
    by (simp add: twoTables_def checkedKeys_def)
  have l: "metaId (last (map meta twoTables)) = ''B''"
    by (simp add: twoTables_def plainTable_def)
  show ?thesis
    using retain_decided_by_count [of "map meta twoTables" "[(''A'', True), (''B'', True)]"] ne le l
    by simp
qed

end
